theory Spec2Isabelle
  imports Main "HOL-Library.Word"
begin

section \<open>Line history: the ring buffer of \<^verbatim>\<open>ringbuf.c\<close>\<close>

text \<open>
  Bytes are \<^typ>\<open>char\<close> (eight bits), byte buffers are \<^typ>\<open>string\<close>. A
  \<^verbatim>\<open>char *\<close> that points to a NUL-terminated object is modelled as
  \<^typ>\<open>string option\<close>: \<open>None\<close> is \<^verbatim>\<open>NULL\<close> and \<open>Some s\<close> is an object
  whose bytes before the terminating NUL are \<open>s\<close>.

  \<^verbatim>\<open>size_t\<close> values are natural numbers. In the ring buffer \<open>head < capacity\<close> and
  \<open>count \<le> capacity\<close>, and \<^verbatim>\<open>calloc(cap, sizeof(char *))\<close> has succeeded, so
  \<open>head + count\<close> and \<open>head + i\<close> stay far below \<^verbatim>\<open>SIZE_MAX\<close> and no sum wraps.
\<close>

record RingBuf =
  lines :: "string option list"
  lengths :: "nat list"
  capacity :: nat
  head :: nat
  count :: nat

text \<open>
  \<^verbatim>\<open>strndup(line, len)\<close> of libc: it copies at most \<open>len\<close> bytes and stops in front
  of the first NUL byte; it returns \<^verbatim>\<open>NULL\<close> when no memory is left. Whether memory
  is left is an input of the model (\<open>ok\<close>).
\<close>

definition strndup :: "bool \<Rightarrow> string \<Rightarrow> nat \<Rightarrow> string option" where
  "strndup ok s n = (if ok then Some (takeWhile (\<lambda>c. c \<noteq> CHR 0x00) (take n s)) else None)"

definition ringbuf_init :: "nat \<Rightarrow> RingBuf" where
  "ringbuf_init cap =
     \<lparr>lines = replicate cap None, lengths = replicate cap 0,
      capacity = cap, head = 0, count = 0\<rparr>"

text \<open>
  \<^verbatim>\<open>ringbuf_push\<close>. The slot is chosen first (appending while there is room,
  overwriting the oldest entry and advancing \<open>head\<close> otherwise), then the copy is
  stored; a failed copy leaves \<^verbatim>\<open>NULL\<close> with length 0 in the slot.
  \<^verbatim>\<open>free\<close> has no counterpart in the model. The capacity is at least 1 in every call
  (\<^verbatim>\<open>main\<close> rejects a window height below 1), so \<open>mod\<close> never divides by zero.
\<close>

definition ringbuf_push :: "RingBuf \<Rightarrow> bool \<Rightarrow> string \<Rightarrow> nat \<Rightarrow> RingBuf" where
  "ringbuf_push rb ok line len =
     (let (slot, rb1) =
            (if count rb < capacity rb
             then ((head rb + count rb) mod capacity rb, rb\<lparr>count := count rb + 1\<rparr>)
             else (head rb, rb\<lparr>head := (head rb + 1) mod capacity rb\<rparr>));
          rb2 = rb1\<lparr>lines := (lines rb1)[slot := strndup ok line len]\<rparr>
      in case strndup ok line len of
           None \<Rightarrow> rb2\<lparr>lengths := (lengths rb2)[slot := 0]\<rparr>
         | Some _ \<Rightarrow> rb2\<lparr>lengths := (lengths rb2)[slot := len]\<rparr>)"

text \<open>
  \<^verbatim>\<open>ringbuf_get\<close> returns the pointer and, through \<^verbatim>\<open>*len\<close>, the length: the
  model returns the pair. Out of range it returns the literal \<^verbatim>\<open>""\<close> and 0.
\<close>

definition ringbuf_get :: "RingBuf \<Rightarrow> nat \<Rightarrow> string option \<times> nat" where
  "ringbuf_get rb i =
     (if i \<ge> count rb then (Some [], 0)
      else let idx = (head rb + i) mod capacity rb
           in (lines rb ! idx, lengths rb ! idx))"

text \<open>
  A run of pushes, each with the outcome of its \<^verbatim>\<open>strndup\<close> and its line; the
  length passed is that of the line.
\<close>

fun push_all :: "RingBuf \<Rightarrow> (bool \<times> string) list \<Rightarrow> RingBuf" where
  "push_all rb [] = rb"
| "push_all rb ((ok, l) # ps) = push_all (ringbuf_push rb ok l (length l)) ps"

text \<open>What a push leaves in its slot: the copy and the recorded length.\<close>

definition stored :: "bool \<Rightarrow> string \<Rightarrow> nat \<Rightarrow> string option \<times> nat" where
  "stored ok l n = (strndup ok l n, if ok then n else 0)"

definition stored_line :: "bool \<times> string \<Rightarrow> string option \<times> nat" where
  "stored_line p = stored (fst p) (snd p) (length (snd p))"

text \<open>
  The invariant of the ring buffer, which \<^verbatim>\<open>ringbuf_init\<close> with a capacity of at
  least 1 establishes and \<^verbatim>\<open>ringbuf_push\<close> keeps: under it the array accesses and the
  division of both functions are defined. Then the entries from oldest to newest.
\<close>

definition ring_wf :: "RingBuf \<Rightarrow> bool" where
  "ring_wf rb =
     (0 < capacity rb \<and> length (lines rb) = capacity rb \<and> length (lengths rb) = capacity rb
      \<and> head rb < capacity rb \<and> count rb \<le> capacity rb)"

definition entries :: "RingBuf \<Rightarrow> (string option \<times> nat) list" where
  "entries rb = map (ringbuf_get rb) [0..<count rb]"

section \<open>Line sanitizer: \<^verbatim>\<open>sanitize_line\<close> of \<^verbatim>\<open>display.c\<close>\<close>

text \<open>
  Memory accesses that C leaves undefined are results of the model: reading through
  \<^verbatim>\<open>NULL\<close> or beyond the terminating NUL of a string, and writing beyond the end of
  the destination buffer.
\<close>

datatype fault = Read_Out_Of_Bounds | Write_Out_Of_Bounds

abbreviation ESC :: char where "ESC \<equiv> CHR 0x1B"
abbreviation NUL :: char where "NUL \<equiv> CHR 0x00"
abbreviation TAB :: char where "TAB \<equiv> CHR 0x09"
abbreviation LF :: char where "LF \<equiv> CHR 0x0A"
abbreviation CR :: char where "CR \<equiv> CHR 0x0D"
abbreviation DEL :: char where "DEL \<equiv> CHR 0x7F"

text \<open>\<^verbatim>\<open>src[i]\<close>, for a pointer to a NUL-terminated string (or \<^verbatim>\<open>NULL\<close>).\<close>

definition read_byte :: "string option \<Rightarrow> nat \<Rightarrow> fault + char" where
  "read_byte p i =
     (case p of
        None \<Rightarrow> Inl Read_Out_Of_Bounds
      | Some s \<Rightarrow>
          if i < length s then Inr (s ! i)
          else if i = length s then Inr NUL
          else Inl Read_Out_Of_Bounds)"

text \<open>\<^verbatim>\<open>dst[k] = c\<close>, for a destination buffer whose bytes are \<open>dst\<close>.\<close>

definition write_byte :: "string \<Rightarrow> nat \<Rightarrow> char \<Rightarrow> fault + string" where
  "write_byte dst k c = (if k < length dst then Inr (dst[k := c]) else Inl Write_Out_Of_Bounds)"

text \<open>
  The inner loop \<^verbatim>\<open>while (col < stop && col < dst_cap) dst[col++] = ' ';\<close>. It
  returns the buffer and the new \<open>col\<close>.
\<close>

function tab_fill :: "string \<Rightarrow> nat \<Rightarrow> nat \<Rightarrow> nat \<Rightarrow> fault + string \<times> nat" where
  "tab_fill dst dst_cap stop col =
     (if col < stop \<and> col < dst_cap
      then (case write_byte dst col (CHR '' '') of
              Inl e \<Rightarrow> Inl e
            | Inr dst' \<Rightarrow> tab_fill dst' dst_cap stop (col + 1))
      else Inr (dst, col))"
  by pat_completeness auto
termination
  by (relation "measure (\<lambda>(dst, dst_cap, stop, col). stop - col)") auto

declare tab_fill.simps [simp del]

text \<open>
  The body of the \<^verbatim>\<open>for\<close> loop of \<^verbatim>\<open>sanitize_line\<close>, from index \<open>i\<close> and column
  \<open>col\<close> on. \<open>col\<close> stays below \<open>dst_cap\<close>, which is an \<^verbatim>\<open>int\<close> value in every
  call, so the tab stop \<^verbatim>\<open>((col / 8) + 1) * 8\<close> does not wrap.
\<close>

function sanitize_from ::
  "string \<Rightarrow> nat \<Rightarrow> string option \<Rightarrow> nat \<Rightarrow> nat \<Rightarrow> nat \<Rightarrow> fault + string \<times> nat" where
  "sanitize_from dst dst_cap src src_len i col =
     (if i < src_len \<and> col < dst_cap
      then (case read_byte src i of
              Inl e \<Rightarrow> Inl e
            | Inr ch \<Rightarrow>
                if ch = LF \<or> ch = CR
                then sanitize_from dst dst_cap src src_len (i + 1) col
                else if ch = TAB
                then (case tab_fill dst dst_cap ((col div 8 + 1) * 8) col of
                        Inl e \<Rightarrow> Inl e
                      | Inr (dst', col') \<Rightarrow> sanitize_from dst' dst_cap src src_len (i + 1) col')
                else if (of_char ch :: nat) < 0x20 \<or> ch = DEL
                then (case write_byte dst col (CHR ''.'') of
                        Inl e \<Rightarrow> Inl e
                      | Inr dst' \<Rightarrow> sanitize_from dst' dst_cap src src_len (i + 1) (col + 1))
                else (case write_byte dst col ch of
                        Inl e \<Rightarrow> Inl e
                      | Inr dst' \<Rightarrow> sanitize_from dst' dst_cap src src_len (i + 1) (col + 1)))
      else Inr (dst, col))"
  by pat_completeness auto
termination
  by (relation "measure (\<lambda>(dst, dst_cap, src, src_len, i, col). src_len - i)") auto

declare sanitize_from.simps [simp del]

text \<open>\<^verbatim>\<open>sanitize_line\<close> returns \<open>col\<close>; the model returns the buffer with it.\<close>

definition sanitize_line ::
  "string \<Rightarrow> nat \<Rightarrow> string option \<Rightarrow> nat \<Rightarrow> fault + string \<times> nat" where
  "sanitize_line dst dst_cap src src_len = sanitize_from dst dst_cap src src_len 0 0"

section \<open>Program state\<close>

text \<open>
  The globals of \<^verbatim>\<open>sash.c\<close> and \<^verbatim>\<open>display.c\<close>, with the devices the program
  writes to. \<^verbatim>\<open>int\<close> globals are integers: rows and columns come from
  \<^verbatim>\<open>unsigned short\<close> fields and the height from the command line, and their sums
  stay inside the range of \<^verbatim>\<open>int\<close>. \<^verbatim>\<open>g_total_lines\<close> is a \<^verbatim>\<open>size_t\<close> that is
  incremented and subtracted from, so it is a 64-bit word and wraps.

  An open stdio stream is the sequence of bytes it has accepted; \<^verbatim>\<open>g_files[i]\<close> is
  \<open>None\<close> when it is \<^verbatim>\<open>NULL\<close>. \<open>g_draw_buf\<close> holds the first \<^verbatim>\<open>g_draw_len\<close> bytes
  of the draw buffer. \<open>tty\<close> lists what the terminal received, one entry for each
  \<^verbatim>\<open>write(2)\<close>; \<open>stderr\<close> lists the diagnostics; \<open>stdout\<close> is the passthrough
  output. Memory allocation by \<^verbatim>\<open>calloc\<close>, \<^verbatim>\<open>malloc\<close> and \<^verbatim>\<open>realloc\<close>
  succeeds in the model (on failure the program prints a message and exits with
  status 1); the capacity of the draw buffer is therefore not part of the state.
\<close>

datatype diagnostic = Write_Error nat

record state =
  g_ring :: RingBuf
  g_files :: "string option list"
  g_flush :: bool
  g_tty_fd :: int
  g_is_tty :: bool
  g_line_numbers :: bool
  g_color :: bool
  g_win_height :: int
  g_term_cols :: int
  g_term_rows :: int
  g_scroll_bottom :: int
  g_win_top :: int
  g_started :: bool
  g_total_lines :: "64 word"
  g_resize :: bool
  g_draw_buf :: string
  tty :: "string list"
  stderr :: "diagnostic list"
  stdout :: string

section \<open>Draw buffer and terminal output\<close>

definition dbuf_reset :: "state \<Rightarrow> state" where
  "dbuf_reset s = s\<lparr>g_draw_buf := []\<rparr>"

text \<open>\<^verbatim>\<open>dbuf_append(s, n)\<close> copies \<open>n\<close> bytes; every call passes the length of its text.\<close>

definition dbuf_append :: "state \<Rightarrow> string \<Rightarrow> nat \<Rightarrow> state" where
  "dbuf_append s str n = s\<lparr>g_draw_buf := g_draw_buf s @ take n str\<rparr>"

text \<open>
  \<^verbatim>\<open>dbuf_printf\<close>: \<open>txt\<close> is the text \<^verbatim>\<open>vsnprintf\<close> formats, of which the 256-byte
  buffer \<^verbatim>\<open>tmp\<close> keeps at most 255 bytes.
\<close>

definition dbuf_printf :: "state \<Rightarrow> string \<Rightarrow> state" where
  "dbuf_printf s txt =
     (let n = length txt
      in if n > 0 then dbuf_append s txt (if n < 256 then n else 255) else s)"

text \<open>Decimal formatting, as \<^verbatim>\<open>%d\<close> and \<^verbatim>\<open>%5zu\<close> of \<^verbatim>\<open>printf\<close> do it.\<close>

fun dec :: "nat \<Rightarrow> string" where
  "dec n = (if n < 10 then [''0123456789'' ! n]
            else dec (n div 10) @ [''0123456789'' ! (n mod 10)])"

declare dec.simps [simp del]

definition fmt_d :: "int \<Rightarrow> string" where
  "fmt_d i = (if i < 0 then CHR ''-'' # dec (nat (- i)) else dec (nat i))"

definition fmt_5zu :: "nat \<Rightarrow> string" where
  "fmt_5zu n = replicate (5 - length (dec n)) (CHR '' '') @ dec n"

text \<open>The texts of the format strings used by the display.\<close>

definition cursor_to :: "int \<Rightarrow> string" where
  "cursor_to row = ESC # ''['' @ fmt_d row @ '';1H''"

definition set_scroll_region :: "int \<Rightarrow> string" where
  "set_scroll_region bottom = ESC # ''[1;'' @ fmt_d bottom @ ''r''"

definition line_number :: "nat \<Rightarrow> string" where
  "line_number n = fmt_5zu n @ [CHR 0xE2, CHR 0x94, CHR 0x82]"

text \<open>
  \<^verbatim>\<open>write(g_tty_fd, buf, len)\<close>: the device takes \<open>k\<close> of the \<open>len\<close> bytes
  (\<open>Some k\<close>) or the call fails (\<open>None\<close>); the outcome is an input of the model. The
  program ignores the result of the call.
\<close>

definition device_write :: "nat option \<Rightarrow> string \<Rightarrow> nat \<Rightarrow> string" where
  "device_write outcome buf len =
     (case outcome of None \<Rightarrow> [] | Some k \<Rightarrow> take (min k len) buf)"

definition tty_write :: "state \<Rightarrow> nat option \<Rightarrow> string \<Rightarrow> nat \<Rightarrow> state" where
  "tty_write s outcome buf len =
     (if g_tty_fd s \<ge> 0 \<and> len > 0
      then s\<lparr>tty := tty s @ [device_write outcome buf len]\<rparr>
      else s)"

definition dbuf_flush :: "state \<Rightarrow> nat option \<Rightarrow> state" where
  "dbuf_flush s outcome = tty_write s outcome (g_draw_buf s) (length (g_draw_buf s))"

text \<open>
  \<^verbatim>\<open>get_terminal_size\<close>: \<open>ws\<close> is what \<^verbatim>\<open>ioctl(TIOCGWINSZ)\<close> reports,
  \<open>Some (ws_col, ws_row)\<close>, or \<open>None\<close> when it fails.
\<close>

definition get_terminal_size :: "state \<Rightarrow> (nat \<times> nat) option \<Rightarrow> state" where
  "get_terminal_size s ws =
     (if g_tty_fd s \<ge> 0
      then (case ws of
              None \<Rightarrow> s
            | Some (ws_col, ws_row) \<Rightarrow>
                (let s1 = (if ws_col > 0 then s\<lparr>g_term_cols := int ws_col\<rparr> else s)
                 in if ws_row > 0 then s1\<lparr>g_term_rows := int ws_row\<rparr> else s1))
      else s)"

section \<open>Frame compositor: \<^verbatim>\<open>build_redraw\<close> and \<^verbatim>\<open>redraw_window\<close>\<close>

text \<open>
  The clamp of the window height, written out in \<^verbatim>\<open>build_redraw\<close>,
  \<^verbatim>\<open>setup_window\<close> and \<^verbatim>\<open>handle_resize\<close> alike.
\<close>

definition clamp_height :: "state \<Rightarrow> int" where
  "clamp_height s =
     (let height = g_win_height s;
          height = (if height > g_term_rows s - 1 then g_term_rows s - 1 else height)
      in if height < 1 then 1 else height)"

text \<open>
  The loop over the rows of \<^verbatim>\<open>build_redraw\<close>, from \<open>row\<close> on. \<open>san\<close> is the scratch
  buffer, reused from row to row.
\<close>

function draw_rows ::
  "int \<Rightarrow> int \<Rightarrow> 64 word \<Rightarrow> string \<Rightarrow> int \<Rightarrow> state \<Rightarrow> fault + state" where
  "draw_rows height content_cols base san row s =
     (if row < height
      then
        (let s1 = dbuf_append s (CR # ESC # ''[2K'') 5;
             (line, len, s2) =
               (if nat row < count (g_ring s1)
                then
                  (let idx = (if count (g_ring s1) \<le> nat height then nat row
                              else count (g_ring s1) - nat height + nat row);
                       (line, len) = ringbuf_get (g_ring s1) idx;
                       s2 = (if g_line_numbers s1
                             then
                               (let a = (if g_color s1 then dbuf_append s1 (ESC # ''[90m'') 5 else s1);
                                    b = dbuf_printf a (line_number (unat (base + of_int row)))
                                in if g_color b then dbuf_append b (ESC # ''[0m'') 4 else b)
                             else s1)
                   in (line, len, s2))
                else
                  (let s2 = (if g_line_numbers s1
                             then
                               (let a = (if g_color s1 then dbuf_append s1 (ESC # ''[90m'') 5 else s1);
                                    b = dbuf_append a (''     '' @ [CHR 0xE2, CHR 0x94, CHR 0x82]) 8
                                in if g_color b then dbuf_append b (ESC # ''[0m'') 4 else b)
                             else s1)
                   in (Some [], 0, s2)))
         in case sanitize_line san (nat content_cols) line len of
              Inl e \<Rightarrow> Inl e
            | Inr (san', slen) \<Rightarrow>
                (let s3 = (if slen > 0 then dbuf_append s2 san' slen else s2);
                     s4 = (if row < height - 1 then dbuf_append s3 [LF] 1 else s3)
                 in draw_rows height content_cols base san' (row + 1) s4))
      else Inr s)"
  by pat_completeness auto
termination
  by (relation "measure (\<lambda>(height, content_cols, base, san, row, s). nat (height - row))") auto

declare draw_rows.simps [simp del]

text \<open>
  \<^verbatim>\<open>build_redraw\<close>. The scratch buffer has \<open>content_cols + 1\<close> bytes; what
  \<^verbatim>\<open>malloc\<close> leaves in them is never read, and the model fills them with NUL.
\<close>

definition build_redraw :: "state \<Rightarrow> fault + state" where
  "build_redraw s =
     (let height = clamp_height s;
          win_top = g_win_top s;
          margin = (if g_line_numbers s then 6 else 0);
          content_cols = g_term_cols s - margin;
          content_cols = (if content_cols < 1 then 1 else content_cols);
          s1 = dbuf_printf s (cursor_to win_top);
          san = replicate (nat content_cols + 1) NUL;
          visible = (if count (g_ring s1) < nat height then count (g_ring s1) else nat height);
          base = g_total_lines s1 - of_nat visible + 1
      in case draw_rows height content_cols base san 0 s1 of
           Inl e \<Rightarrow> Inl e
         | Inr s2 \<Rightarrow>
             Inr (if g_scroll_bottom s2 > 0
                  then dbuf_printf s2 (cursor_to (g_scroll_bottom s2))
                  else s2))"

definition redraw_window :: "state \<Rightarrow> nat option \<Rightarrow> fault + state" where
  "redraw_window s outcome =
     (if \<not> g_is_tty s then Inr s
      else (case build_redraw (dbuf_reset s) of
              Inl e \<Rightarrow> Inl e
            | Inr s1 \<Rightarrow> Inr (dbuf_flush s1 outcome)))"

section \<open>Terminal session: cursor probe, window setup, resize\<close>


text \<open>
  The read loop: at most 31 bytes (\<^verbatim>\<open>sizeof(resp) - 1\<close>), stopping behind the first
  \<^verbatim>\<open>'R'\<close> or when no byte arrives.
\<close>

fun read_reply :: "nat \<Rightarrow> string \<Rightarrow> string" where
  "read_reply 0 bs = []"
| "read_reply (Suc n) [] = []"
| "read_reply (Suc n) (b # bs) = (if b = CHR ''R'' then [b] else b # read_reply n bs)"








definition handle_resize ::
  "state \<Rightarrow> (nat \<times> nat) option \<Rightarrow> nat option \<Rightarrow> fault + state" where
  "handle_resize s ws outcome =
     (let s1 = get_terminal_size (s\<lparr>g_resize := False\<rparr>) ws;
          height = clamp_height s1;
          s2 = s1\<lparr>g_win_top := g_term_rows s1 - height + 1\<rparr>;
          s3 = s2\<lparr>g_scroll_bottom := g_win_top s2 - 1\<rparr>
      in if g_started s3
         then
           (let s4 = dbuf_reset s3;
                s5 = (if g_scroll_bottom s4 \<ge> 2
                      then dbuf_printf s4 (set_scroll_region (g_scroll_bottom s4))
                      else dbuf_append s4 (ESC # ''[r'') 3)
            in case build_redraw s5 of
                 Inl e \<Rightarrow> Inl e
               | Inr s6 \<Rightarrow> Inr (dbuf_flush s6 outcome))
         else Inr s3)"

section \<open>The tee path: \<^verbatim>\<open>write_to_files\<close> and the main loop\<close>





text \<open>
  One iteration of the main loop is driven by an event: the line \<^verbatim>\<open>getline\<close>
  returned (\<^verbatim>\<open>nread\<close> is its length), whether \<^verbatim>\<open>SIGWINCH\<close> arrived while the read
  was blocked, and the behaviour of the environment during the iteration.
\<close>

record event =
  line :: string
  sigwinch :: bool
  winsize :: "(nat \<times> nat) option"
  resize_outcome :: "nat option"
  accepts :: "nat \<Rightarrow> nat"
  dup_ok :: bool
  beyond :: "nat \<Rightarrow> nat \<Rightarrow> char"
  redraw_outcome :: "nat option"
  stdout_accepts :: nat

text \<open>
  What the display functions read of the history. \<^verbatim>\<open>ringbuf_get\<close> hands out the
  pointer to a copy with the recorded length, and \<^verbatim>\<open>sanitize_line\<close> reads that many
  bytes at the pointer: the bytes of the copy, its terminating NUL and, where the
  recorded length reaches further (the copy of a line with a NUL byte ends in front
  of that byte, the recorded length is that of the line), the bytes that follow the
  copy in memory. C leaves a read of those undefined, and \<open>read_byte\<close> reports it;
  the program has no check there and goes on with the bytes it finds. Which bytes
  follow the copy in slot \<open>k\<close> during an iteration is an input of the model,
  \<open>beyond ev k\<close>. \<open>memory_at\<close> is what can be read at a pointer up to the recorded
  length, \<open>ring_in_memory\<close> the ring buffer with every slot read so, and
  \<open>reading\<close> runs a display function on it. The display functions do not assign to
  the ring buffer, which stays as it was. A \<^verbatim>\<open>NULL\<close> pointer stays \<^verbatim>\<open>NULL\<close>: reading
  through it is a fault here as well.
\<close>

definition memory_at :: "(nat \<Rightarrow> char) \<Rightarrow> string option \<Rightarrow> nat \<Rightarrow> string option" where
  "memory_at follows p n =
     (case p of
        None \<Rightarrow> None
      | Some s \<Rightarrow>
          if n \<le> length s + 1 then Some s
          else Some (s @ NUL # map follows [0..<n - (length s + 1)]))"

definition ring_in_memory :: "(nat \<Rightarrow> nat \<Rightarrow> char) \<Rightarrow> RingBuf \<Rightarrow> RingBuf" where
  "ring_in_memory follows rb =
     rb\<lparr>lines := map (\<lambda>k. memory_at (follows k) (lines rb ! k) (lengths rb ! k))
                      [0..<length (lines rb)]\<rparr>"





section \<open>What the sanitizer leaves in the buffer\<close>

text \<open>
  The output of \<^verbatim>\<open>sanitize_line\<close> as a function of the bytes it reads:
  \<open>sanitized cap col cs\<close> is what the bytes \<open>cs\<close> add from column \<open>col\<close> on when
  the capacity is \<open>cap\<close>.
\<close>

fun sanitized :: "nat \<Rightarrow> nat \<Rightarrow> string \<Rightarrow> string" where
  "sanitized cap col [] = []"
| "sanitized cap col (ch # cs) =
     (if col < cap
      then if ch = LF \<or> ch = CR then sanitized cap col cs
           else if ch = TAB
           then replicate (min ((col div 8 + 1) * 8) cap - col) (CHR '' '')
                  @ sanitized cap (min ((col div 8 + 1) * 8) cap) cs
           else (if (of_char ch :: nat) < 0x20 \<or> ch = DEL then CHR ''.'' else ch)
                  # sanitized cap (col + 1) cs
      else [])"

text \<open>
  A byte that is neither a C0 control byte (this includes newline and carriage
  return) nor DEL; and what a call may have changed in the buffer when it returns
  \<open>(dst', n)\<close> after starting at column \<open>col\<close>: the columns from \<open>col\<close> up to
  \<open>n\<close>, below the capacity, and these hold such bytes only.
\<close>

definition display_byte :: "char \<Rightarrow> bool" where
  "display_byte c = (0x20 \<le> (of_char c :: nat) \<and> c \<noteq> DEL)"

definition wrote :: "nat \<Rightarrow> string \<Rightarrow> nat \<Rightarrow> string \<times> nat \<Rightarrow> bool" where
  "wrote cap dst col r =
     (case r of (dst', n) \<Rightarrow>
        col \<le> n \<and> n \<le> cap \<and> length dst' = length dst
        \<and> take col dst' = take col dst \<and> drop n dst' = drop n dst
        \<and> (\<forall>k. col \<le> k \<and> k < n \<longrightarrow> display_byte (dst' ! k)))"

text \<open>The bytes that \<open>src_len\<close> reads of a string see.\<close>

definition line_bytes :: "string option \<Rightarrow> nat \<Rightarrow> string" where
  "line_bytes p n = (case p of None \<Rightarrow> [] | Some s \<Rightarrow> take n (s @ [NUL]))"

definition readable :: "string option \<times> nat \<Rightarrow> bool" where
  "readable e = (case e of (None, n) \<Rightarrow> n = 0 | (Some s, n) \<Rightarrow> n \<le> length s + 1)"

section \<open>What a frame consists of\<close>

text \<open>
  The frame that \<^verbatim>\<open>build_redraw\<close> appends to the draw buffer, described row by
  row. \<open>printed txt\<close> is what \<^verbatim>\<open>dbuf_printf\<close> appends for the text \<open>txt\<close>;
  \<open>gutter\<close> is the line-number margin around its text; \<open>row_index\<close> is the history
  entry drawn on a row, if there is one; \<open>row_source\<close> is the pointer and length
  passed to \<^verbatim>\<open>sanitize_line\<close> for a row; \<open>content_width\<close> and \<open>first_number\<close> are
  the locals \<^verbatim>\<open>content_cols\<close> and \<^verbatim>\<open>base\<close>. A ring buffer is readable when it
  is well formed (\<open>ring_wf\<close>) and the recorded length of every entry lies within
  its string (the terminating NUL included).
\<close>

definition printed :: "string \<Rightarrow> string" where
  "printed txt = (if length txt < 256 then txt else take 255 txt)"

definition gutter :: "state \<Rightarrow> string \<Rightarrow> string" where
  "gutter s txt =
     (if g_line_numbers s
      then (if g_color s then ESC # ''[90m'' else []) @ txt
             @ (if g_color s then ESC # ''[0m'' else [])
      else [])"

definition row_index :: "nat \<Rightarrow> nat \<Rightarrow> nat \<Rightarrow> nat option" where
  "row_index cnt height row =
     (if row < cnt then Some (if cnt \<le> height then row else cnt - height + row) else None)"

definition frame_row :: "state \<Rightarrow> int \<Rightarrow> int \<Rightarrow> 64 word \<Rightarrow> nat \<Rightarrow> string" where
  "frame_row s height content_cols base row =
     CR # ESC # ''[2K''
     @ (case row_index (count (g_ring s)) (nat height) row of
          Some idx \<Rightarrow>
            gutter s (printed (line_number (unat (base + of_nat row))))
            @ (case ringbuf_get (g_ring s) idx of
                 (p, len) \<Rightarrow> sanitized (nat content_cols) 0 (line_bytes p len))
        | None \<Rightarrow> gutter s (''     '' @ [CHR 0xE2, CHR 0x94, CHR 0x82]))
     @ (if int row < height - 1 then [LF] else [])"

definition ring_readable :: "RingBuf \<Rightarrow> bool" where
  "ring_readable rb = (ring_wf rb \<and> list_all readable (entries rb))"

definition row_source :: "state \<Rightarrow> int \<Rightarrow> nat \<Rightarrow> string option \<times> nat" where
  "row_source s height r =
     (case row_index (count (g_ring s)) (nat height) r of
        Some idx \<Rightarrow> ringbuf_get (g_ring s) idx
      | None \<Rightarrow> (Some [], 0))"

definition frame_rows :: "state \<Rightarrow> int \<Rightarrow> int \<Rightarrow> 64 word \<Rightarrow> nat \<Rightarrow> string" where
  "frame_rows s height content_cols base r =
     concat (map (frame_row s height content_cols base) [r..<nat height])"

definition content_width :: "state \<Rightarrow> int" where
  "content_width s =
     (let margin = (if g_line_numbers s then 6 else 0);
          content_cols = g_term_cols s - margin
      in if content_cols < 1 then 1 else content_cols)"

definition first_number :: "state \<Rightarrow> 64 word" where
  "first_number s =
     (let height = clamp_height s;
          visible = (if count (g_ring s) < nat height then count (g_ring s) else nat height)
      in g_total_lines s - of_nat visible + 1)"

definition frame :: "state \<Rightarrow> string" where
  "frame s =
     printed (cursor_to (g_win_top s))
     @ frame_rows s (clamp_height s) (content_width s) (first_number s) 0
     @ (if g_scroll_bottom s > 0 then printed (cursor_to (g_scroll_bottom s)) else [])"

section \<open>The state at program start\<close>

text \<open>
  The initial values of the globals, with the ring buffer of the default window
  height and no output file.
\<close>

definition initial_state :: state where
  "initial_state =
     \<lparr>g_ring = ringbuf_init 10, g_files = [], g_flush = False, g_tty_fd = - 1,
      g_is_tty = False, g_line_numbers = False, g_color = False, g_win_height = 10,
      g_term_cols = 80, g_term_rows = 24, g_scroll_bottom = 0, g_win_top = 0,
      g_started = False, g_total_lines = 0, g_resize = False, g_draw_buf = [],
      tty = [], stderr = [], stdout = []\<rparr>"


section \<open>What the tee path does to the sinks\<close>





section \<open>The sanitizer with a mode flag\<close>

text \<open>
  The specification gives the sanitizer a mode flag: in decorative mode escape
  sequences pass through and take no column, in plain mode ESC is neutralised like
  any control byte. \<^verbatim>\<open>sanitize_line\<close> of \<^verbatim>\<open>display.c\<close> as it is in the sources
  has no such flag and is the plain mode. The version with the flag, which
  \<^verbatim>\<open>tests/test_sanitize.c\<close> calls with three arguments and the global
  \<^verbatim>\<open>g_ansi\<close>, is not among the sources; the definitions of this section stand for
  it.
\<close>

text \<open>
  Modelled from the spec: the length of a control sequence behind \<^verbatim>\<open>ESC [\<close>, up
  to and including its terminator (the escape-sequence branch of the sanitizer is
  missing from the sources). The specification does not say which bytes terminate
  a sequence, so the test \<open>fin\<close> is a parameter; a sequence that is not terminated
  runs to the end of the line.
\<close>

fun csi_len :: "(char \<Rightarrow> bool) \<Rightarrow> string \<Rightarrow> nat" where
  "csi_len fin [] = 0"
| "csi_len fin (c # cs) = (if fin c then 1 else 1 + csi_len fin cs)"

text \<open>
  Modelled from the spec: the number of bytes behind an ESC that belong to its
  escape sequence, "ESC followed by [ ... terminator, or ESC followed by a single
  byte" (missing from the sources, as above).
\<close>

definition escape_len :: "(char \<Rightarrow> bool) \<Rightarrow> string \<Rightarrow> nat" where
  "escape_len fin cs =
     (case cs of [] \<Rightarrow> 0
      | c # cs' \<Rightarrow> if c = CHR ''['' then 1 + csi_len fin cs' else 1)"

text \<open>
  Modelled from the spec: the sanitizer of section 4.2 with its mode flag, from
  column \<open>col\<close> on; it returns the output and the visible-column count. The rules
  for newline, carriage return, tab, control bytes and the budget are those of
  \<^verbatim>\<open>sanitize_line\<close>; the rule for ESC in decorative mode is the one that is
  missing from the sources.
\<close>

function sanitize_mode ::
  "(char \<Rightarrow> bool) \<Rightarrow> bool \<Rightarrow> nat \<Rightarrow> nat \<Rightarrow> string \<Rightarrow> string \<times> nat" where
  "sanitize_mode fin decorative budget col [] = ([], col)"
| "sanitize_mode fin decorative budget col (ch # cs) =
     (if col < budget
      then if ch = LF \<or> ch = CR then sanitize_mode fin decorative budget col cs
           else if ch = TAB
           then (let stop = min ((col div 8 + 1) * 8) budget;
                     (out, n) = sanitize_mode fin decorative budget stop cs
                 in (replicate (stop - col) (CHR '' '') @ out, n))
           else if decorative \<and> ch = ESC
           then (let k = escape_len fin cs;
                     (out, n) = sanitize_mode fin decorative budget col (drop k cs)
                 in (ESC # take k cs @ out, n))
           else if (of_char ch :: nat) < 0x20 \<or> ch = DEL
           then (let (out, n) = sanitize_mode fin decorative budget (col + 1) cs
                 in (CHR ''.'' # out, n))
           else (let (out, n) = sanitize_mode fin decorative budget (col + 1) cs
                 in (ch # out, n))
      else ([], col))"
  by pat_completeness auto
termination
  by (relation "measure (\<lambda>(fin, decorative, budget, col, cs). length cs)") auto

text \<open>
  Modelled from the spec: the sanitizer as \<^verbatim>\<open>tests/test_sanitize.c\<close> calls it, with the
  line, the column budget and the mode (the function with the mode flag is missing
  from the sources): the rules of section 4.2 from column 0 on. In decorative mode
  the reset \<^verbatim>\<open>ESC [0m\<close> closes the output; the specification does not speak of it,
  every expected output of the test in that mode ends with it.
\<close>

definition sanitize_line_ansi :: "(char \<Rightarrow> bool) \<Rightarrow> bool \<Rightarrow> string \<Rightarrow> nat \<Rightarrow> string" where
  "sanitize_line_ansi fin decorative input max_cols =
     fst (sanitize_mode fin decorative max_cols 0 input)
       @ (if decorative then ESC # ''[0m'' else [])"

text \<open>
  Modelled from the spec: a line without its escape sequences, that is, the bytes
  that take a column (the notion of visible column is that of the missing
  decorative mode).
\<close>

function strip_escapes :: "(char \<Rightarrow> bool) \<Rightarrow> string \<Rightarrow> string" where
  "strip_escapes fin [] = []"
| "strip_escapes fin (c # cs) =
     (if c = ESC then strip_escapes fin (drop (escape_len fin cs) cs)
      else c # strip_escapes fin cs)"
  by pat_completeness auto
termination
  by (relation "measure (\<lambda>(fin, cs). length cs)") auto

text \<open>
  Modelled from the spec: the final bytes of a control sequence in ECMA-48, one
  choice for the terminator test, used to run the model on the examples of
  \<^verbatim>\<open>tests/test_sanitize.c\<close>.
\<close>

definition ecma48_final :: "char \<Rightarrow> bool" where
  "ecma48_final c = (0x40 \<le> (of_char c :: nat) \<and> (of_char c :: nat) \<le> 0x7E)"

section \<open>Properties of the line history\<close>

lemma mod_add_inj:
  fixes h i j c :: nat
  assumes "i < c" "j < c" "(h + i) mod c = (h + j) mod c"
  shows "i = j"
proof -
  have "(h mod c + i) mod c = (h mod c + j) mod c"
    using assms(3) by (simp add: mod_add_left_eq)
  moreover have a: "h mod c < c" using assms(1) by simp
  moreover have "(h mod c + x) mod c = (if h mod c + x < c then h mod c + x else h mod c + x - c)"
    if "x < c" for x
  proof (cases "h mod c + x < c")
    case True then show ?thesis by simp
  next
    case False
    then have "h mod c + x - c < c" using that a by linarith
    then have "(h mod c + x - c) mod c = h mod c + x - c" by simp
    moreover have "(h mod c + x) mod c = (h mod c + x - c) mod c"
      using False by (simp add: le_mod_geq)
    ultimately show ?thesis using False by simp
  qed
  ultimately show ?thesis using assms(1,2)
    by (auto split: if_splits)
qed

lemma ring_wf_init: "0 < C \<Longrightarrow> ring_wf (ringbuf_init C)"
  by (simp add: ring_wf_def ringbuf_init_def)

lemma ring_wf_push: "ring_wf rb \<Longrightarrow> ring_wf (ringbuf_push rb ok l n)"
  by (auto simp: ring_wf_def ringbuf_push_def Let_def split: option.splits)

lemma count_push:
  "count (ringbuf_push rb ok l n) = (if count rb < capacity rb then count rb + 1 else count rb)"
  by (auto simp: ringbuf_push_def Let_def split: option.splits)

lemma capacity_push: "capacity (ringbuf_push rb ok l n) = capacity rb"
  by (auto simp: ringbuf_push_def Let_def split: option.splits)

lemma get_push_room:
  assumes "ring_wf rb" "count rb < capacity rb" "i \<le> count rb"
  shows "ringbuf_get (ringbuf_push rb ok l n) i =
           (if i = count rb then stored ok l n else ringbuf_get rb i)"
proof -
  have neq: "i < count rb \<Longrightarrow> (head rb + i) mod capacity rb \<noteq> (head rb + count rb) mod capacity rb"
    using assms mod_add_inj[of i "capacity rb" "count rb" "head rb"] by auto
  have lt: "(head rb + count rb) mod capacity rb < capacity rb"
    using assms by (simp add: ring_wf_def)
  show ?thesis
    using assms neq lt
    by (auto simp: ringbuf_get_def ringbuf_push_def Let_def stored_def strndup_def ring_wf_def
             split: option.splits)
qed

lemma get_push_full:
  assumes "ring_wf rb" "count rb = capacity rb" "i < count rb"
  shows "ringbuf_get (ringbuf_push rb ok l n) i =
           (if i = count rb - 1 then stored ok l n else ringbuf_get rb (i + 1))"
proof -
  let ?c = "capacity rb"
  have c: "0 < ?c" "head rb < ?c" using assms by (auto simp: ring_wf_def)
  have "((head rb + 1) mod ?c + i) mod ?c = ((head rb + 1) + i) mod ?c"
    by (rule mod_add_left_eq)
  then have idx: "((head rb + 1) mod ?c + i) mod ?c = (head rb + (i + 1)) mod ?c"
    by (simp add: ac_simps)
  have last: "i = ?c - 1 \<Longrightarrow> (head rb + (i + 1)) mod ?c = head rb"
    using c by simp
  have neq: "i \<noteq> ?c - 1 \<Longrightarrow> (head rb + (i + 1)) mod ?c \<noteq> head rb"
  proof
    assume a: "i \<noteq> ?c - 1" "(head rb + (i + 1)) mod ?c = head rb"
    have "(head rb + (i + 1)) mod ?c = (head rb + 0) mod ?c" using a c by simp
    moreover have "i + 1 < ?c" using a(1) assms by linarith
    ultimately have "i + 1 = 0" using mod_add_inj[of "i + 1" ?c 0 "head rb"] c by blast
    then show False by simp
  qed
  show ?thesis
    using assms c idx last neq
    by (auto simp: ringbuf_get_def ringbuf_push_def Let_def stored_def strndup_def ring_wf_def
             split: option.splits)
qed


lemma length_entries [simp]: "length (entries rb) = count rb"
  by (simp add: entries_def)

lemma nth_entries: "i < count rb \<Longrightarrow> entries rb ! i = ringbuf_get rb i"
  by (simp add: entries_def)

lemma entries_push:
  assumes "ring_wf rb"
  shows "entries (ringbuf_push rb ok l n) =
           drop (Suc (count rb) - capacity rb) (entries rb @ [stored ok l n])"
proof (cases "count rb < capacity rb")
  case True
  have "entries (ringbuf_push rb ok l n) = entries rb @ [stored ok l n]"
  proof (rule nth_equalityI)
    show "length (entries (ringbuf_push rb ok l n)) = length (entries rb @ [stored ok l n])"
      using True by (simp add: count_push)
  next
    fix i assume "i < length (entries (ringbuf_push rb ok l n))"
    then have i: "i \<le> count rb" using True by (simp add: count_push)
    then show "entries (ringbuf_push rb ok l n) ! i = (entries rb @ [stored ok l n]) ! i"
      using True assms get_push_room[OF assms True i]
      by (simp add: nth_entries count_push nth_append)
  qed
  then show ?thesis using True by simp
next
  case False
  then have full: "count rb = capacity rb" using assms by (simp add: ring_wf_def)
  have pos: "0 < count rb" using full assms by (simp add: ring_wf_def)
  have "entries (ringbuf_push rb ok l n) = drop 1 (entries rb @ [stored ok l n])"
  proof (rule nth_equalityI)
    show "length (entries (ringbuf_push rb ok l n)) = length (drop 1 (entries rb @ [stored ok l n]))"
      using full by (simp add: count_push)
  next
    fix i assume "i < length (entries (ringbuf_push rb ok l n))"
    then have i: "i < count rb" using full by (simp add: count_push)
    then show "entries (ringbuf_push rb ok l n) ! i = drop 1 (entries rb @ [stored ok l n]) ! i"
      using full pos get_push_full[OF assms full i]
      by (auto simp: nth_entries count_push nth_append)
  qed
  then show ?thesis using full by simp
qed

lemma drop_append_le: "b \<le> length xs \<Longrightarrow> drop b xs @ ys = drop b (xs @ ys)"
  by simp

lemma entries_push_all:
  "ring_wf rb \<Longrightarrow>
     entries (push_all rb ps) =
       drop (count rb + length ps - capacity rb) (entries rb @ map stored_line ps)
     \<and> ring_wf (push_all rb ps) \<and> capacity (push_all rb ps) = capacity rb"
proof (induction ps arbitrary: rb)
  case Nil
  then show ?case by (simp add: ring_wf_def)
next
  case (Cons p ps)
  obtain ok l where p: "p = (ok, l)" by (cases p)
  let ?rb = "ringbuf_push rb ok l (length l)"
  have wf: "ring_wf ?rb" using Cons.prems by (rule ring_wf_push)
  have cnt: "count ?rb = min (Suc (count rb)) (capacity rb)"
    using Cons.prems by (auto simp: count_push ring_wf_def)
  have le: "count rb \<le> capacity rb" using Cons.prems by (simp add: ring_wf_def)
  have "entries (push_all ?rb ps) =
          drop (count ?rb + length ps - capacity ?rb) (entries ?rb @ map stored_line ps)"
    using Cons.IH[OF wf] by simp
  also have "\<dots> = drop (count ?rb + length ps - capacity rb)
                    (drop (Suc (count rb) - capacity rb) (entries rb @ [stored_line p]) @ map stored_line ps)"
    using entries_push[OF Cons.prems, of ok l "length l"]
    by (simp add: capacity_push p stored_line_def)
  also have "\<dots> = drop (count ?rb + length ps - capacity rb)
                    (drop (Suc (count rb) - capacity rb) ((entries rb @ [stored_line p]) @ map stored_line ps))"
  proof -
    have "Suc (count rb) - capacity rb \<le> length (entries rb @ [stored_line p])"
      using le by simp
    then show ?thesis by (simp only: drop_append_le)
  qed
  also have "\<dots> = drop ((count ?rb + length ps - capacity rb) + (Suc (count rb) - capacity rb))
                    (entries rb @ map stored_line (p # ps))"
    by (simp only: drop_drop append_assoc append_Cons append_Nil list.map)
  also have "(count ?rb + length ps - capacity rb) + (Suc (count rb) - capacity rb)
               = count rb + length (p # ps) - capacity rb"
    using le cnt by (cases "count rb < capacity rb") (auto simp: min_def)
  finally show ?case using Cons.IH[OF wf] by (simp add: p capacity_push)
qed

lemma entries_init: "entries (ringbuf_init C) = []"
  by (simp add: entries_def ringbuf_init_def)

lemma history:
  assumes "0 < C"
  shows "entries (push_all (ringbuf_init C) ps) = drop (length ps - C) (map stored_line ps)"
  using entries_push_all[OF ring_wf_init[OF assms], of ps] 
  by (simp add: entries_init) (simp add: ringbuf_init_def)

text \<open>
  C2, as amended. For every capacity \<open>C \<ge> 1\<close> and every sequence of pushes,
  \<open>count\<close> is the smaller of the number of pushes and \<open>C\<close>, and
  \<^verbatim>\<open>ringbuf_get\<close> at \<open>0, \<dots>, count - 1\<close> returns what the last \<open>count\<close> pushes
  stored, oldest first. A push stores its line and the length of the line when the
  line has no NUL byte and the copy succeeded, and \<^verbatim>\<open>NULL\<close> with length 0 when the
  copy failed.
\<close>

theorem ringbuf_history:
  assumes "0 < C"
  shows "count (push_all (ringbuf_init C) ps) = min (length ps) C
    \<and> (\<forall>i < min (length ps) C.
          ringbuf_get (push_all (ringbuf_init C) ps) i
            = stored_line (ps ! (length ps - min (length ps) C + i)))
    \<and> (\<forall>l. NUL \<notin> set l \<longrightarrow> stored_line (True, l) = (Some l, length l))
    \<and> (\<forall>l. stored_line (False, l) = (None, 0))"
proof -
  let ?rb = "push_all (ringbuf_init C) ps"
  have e: "entries ?rb = drop (length ps - C) (map stored_line ps)"
    using assms by (rule history)
  have c: "count ?rb = min (length ps) C"
    using arg_cong[OF e, of length] by (simp add: min_def)
  have g: "ringbuf_get ?rb i = stored_line (ps ! (length ps - min (length ps) C + i))"
    if "i < min (length ps) C" for i
  proof -
    have "ringbuf_get ?rb i = entries ?rb ! i" using that c by (simp add: nth_entries)
    also have "\<dots> = stored_line (ps ! (length ps - C + i))"
    proof -
      have "length ps - C + i < length ps" using that by (auto simp: min_def split: if_splits)
      then show ?thesis using that by (simp add: e)
    qed
    also have "length ps - C + i = length ps - min (length ps) C + i"
      by (simp add: min_def)
    finally show ?thesis .
  qed
  have n: "stored_line (True, l) = (Some l, length l)" if "NUL \<notin> set l" for l
  proof -
    have "takeWhile (\<lambda>c. c \<noteq> NUL) l = l" using that by (auto simp: takeWhile_eq_all_conv)
    then show ?thesis by (simp add: stored_line_def stored_def strndup_def)
  qed
  have f: "stored_line (False, l) = (None, 0)" for l
    by (simp add: stored_line_def stored_def strndup_def)
  show ?thesis using c g n f by blast
qed

text \<open>Capacity 3 and pushes "aaa", "bbb", "ccc", "ddd" leave "bbb", "ccc", "ddd".\<close>

theorem ringbuf_history_witness:
  "(0::nat) < 3
   \<and> count (push_all (ringbuf_init 3) [(True, ''aaa''), (True, ''bbb''), (True, ''ccc''), (True, ''ddd'')]) = 3
   \<and> ringbuf_get (push_all (ringbuf_init 3) [(True, ''aaa''), (True, ''bbb''), (True, ''ccc''), (True, ''ddd'')]) 0 = (Some ''bbb'', 3)
   \<and> ringbuf_get (push_all (ringbuf_init 3) [(True, ''aaa''), (True, ''bbb''), (True, ''ccc''), (True, ''ddd'')]) 1 = (Some ''ccc'', 3)
   \<and> ringbuf_get (push_all (ringbuf_init 3) [(True, ''aaa''), (True, ''bbb''), (True, ''ccc''), (True, ''ddd'')]) 2 = (Some ''ddd'', 3)"
proof -
  let ?ps = "[(True, ''aaa''), (True, ''bbb''), (True, ''ccc''), (True, ''ddd'')]"
  have h: "(0::nat) < 3" by simp
  note t = ringbuf_history [OF h, of ?ps]
  have s: "stored_line (True, l) = (Some l, length l)" if "NUL \<notin> set l" for l
    using t that by blast
  have g: "ringbuf_get (push_all (ringbuf_init 3) ?ps) i = stored_line (?ps ! (1 + i))" if "i < 3" for i
    using t that by simp
  show ?thesis using t g[of 0] g[of 1] g[of 2] by (simp add: s)
qed

text \<open>
  The claim as stated fails where the copy fails (the entry is \<^verbatim>\<open>NULL\<close> with
  length 0) and where the line holds a NUL byte (the copy ends in front of it, the
  recorded length does not).
\<close>

theorem ringbuf_history_counterexample:
  "ringbuf_get (push_all (ringbuf_init 1) [(False, ''aaa'')]) 0 = (None, 0)
   \<and> ringbuf_get (push_all (ringbuf_init 1) [(True, [CHR ''a'', NUL, CHR ''b''])]) 0 = (Some ''a'', 3)"
  by (simp add: ringbuf_push_def ringbuf_init_def ringbuf_get_def strndup_def Let_def)

text \<open>
  C8. For every ring buffer and every index \<open>i\<close> at or beyond \<open>count\<close>,
  \<^verbatim>\<open>ringbuf_get\<close> returns the empty string with length 0; no slot is read.
\<close>

theorem ringbuf_get_out_of_range:
  "count rb \<le> i \<Longrightarrow> ringbuf_get rb i = (Some [], 0)"
  by (simp add: ringbuf_get_def)

theorem ringbuf_get_out_of_range_witness:
  "count (ringbuf_push (ringbuf_init 3) True ''x'' 1) \<le> 5
   \<and> ringbuf_get (ringbuf_push (ringbuf_init 3) True ''x'' 1) 5 = (Some [], 0)"
proof -
  have h: "count (ringbuf_push (ringbuf_init 3) True ''x'' 1) \<le> 5"
    by (simp add: ringbuf_push_def ringbuf_init_def strndup_def Let_def)
  show ?thesis using h ringbuf_get_out_of_range [OF h] by simp
qed

section \<open>Properties of the sanitizer\<close>

lemma wrote_refl: "col \<le> cap \<Longrightarrow> wrote cap dst col (dst, col)"
  by (auto simp: wrote_def)

lemma wrote_trans:
  assumes "wrote cap dst col (d1, n1)" "wrote cap d1 n1 (d2, n2)"
  shows "wrote cap dst col (d2, n2)"
proof -
  from assms have a: "col \<le> n1" "n1 \<le> n2" "n2 \<le> cap" "length d2 = length dst"
    "take col d1 = take col dst" "take n1 d2 = take n1 d1"
    "drop n1 d1 = drop n1 dst" "drop n2 d2 = drop n2 d1"
    by (auto simp: wrote_def)
  have t: "take col d2 = take col dst"
  proof -
    have "take col d2 = take col (take n1 d2)" using a(1) by (simp add: min_def)
    also have "\<dots> = take col (take n1 d1)" using a(6) by simp
    also have "\<dots> = take col d1" using a(1) by (simp add: min_def)
    finally show ?thesis using a(5) by simp
  qed
  have d: "drop n2 d2 = drop n2 dst"
  proof -
    have "drop n2 d1 = drop (n2 - n1) (drop n1 d1)" using a(2) by simp
    also have "\<dots> = drop (n2 - n1) (drop n1 dst)" using a(7) by simp
    also have "\<dots> = drop n2 dst" using a(2) by simp
    finally show ?thesis using a(8) by simp
  qed
  have p: "display_byte (d2 ! k)" if "col \<le> k" "k < n2" for k
  proof (cases "k < n1")
    case True
    have "d2 ! k = take n1 d2 ! k" using True by simp
    also have "\<dots> = d1 ! k" using True a(6) by simp
    finally show ?thesis using assms(1) that True by (auto simp: wrote_def)
  next
    case False
    then show ?thesis using assms(2) that by (auto simp: wrote_def)
  qed
  show ?thesis using a t d p by (simp add: wrote_def)
qed

lemma wrote_step:
  assumes "col < cap" "cap \<le> length dst" "display_byte c"
  shows "wrote cap dst col (dst[col := c], Suc col)"
  using assms by (auto simp: wrote_def less_Suc_eq)

lemma tab_fill_wrote:
  "cap \<le> length dst \<Longrightarrow> col \<le> cap \<Longrightarrow>
     \<exists>r. tab_fill dst cap stop col = Inr r \<and> wrote cap dst col r
          \<and> snd r = max col (min stop cap)"
proof (induction dst cap stop col rule: tab_fill.induct)
  case (1 dst cap stop col)
  show ?case
  proof (cases "col < stop \<and> col < cap")
    case True
    let ?d = "dst[col := CHR '' '']"
    have w: "write_byte dst col (CHR '' '') = Inr ?d"
      using True 1(2) by (simp add: write_byte_def)
    have "\<exists>r. tab_fill ?d cap stop (col + 1) = Inr r \<and> wrote cap ?d (col + 1) r
          \<and> snd r = max (col + 1) (min stop cap)"
      using 1(1)[OF True w] 1(2) True by simp
    then obtain d2 n2 where r: "tab_fill ?d cap stop (col + 1) = Inr (d2, n2)"
      "wrote cap ?d (col + 1) (d2, n2)" "n2 = max (col + 1) (min stop cap)" by auto
    have "wrote cap dst col (?d, Suc col)"
      using True 1(2) by (intro wrote_step) (auto simp: display_byte_def)
    then have "wrote cap dst col (d2, n2)" using r(2) wrote_trans by simp
    moreover have "tab_fill dst cap stop col = Inr (d2, n2)"
      using True w r(1) by (subst tab_fill.simps) simp
    ultimately show ?thesis using r(3) True by (auto simp: max_def min_def)
  next
    case False
    then have "tab_fill dst cap stop col = Inr (dst, col)"
      by (subst tab_fill.simps) auto
    then show ?thesis using False 1(3) by (auto simp: wrote_refl max_def min_def)
  qed
qed

lemma sanitize_from_wrote:
  "cap \<le> length dst \<Longrightarrow> col \<le> cap \<Longrightarrow>
     (case sanitize_from dst cap src src_len i col of
        Inl e \<Rightarrow> e = Read_Out_Of_Bounds
      | Inr r \<Rightarrow> wrote cap dst col r)"
proof (induction dst cap src src_len i col rule: sanitize_from.induct)
  case (1 dst cap src src_len i col)
  show ?case
  proof (cases "i < src_len \<and> col < cap")
    case False
    then have "sanitize_from dst cap src src_len i col = Inr (dst, col)"
      by (subst sanitize_from.simps) auto
    then show ?thesis using 1(6) by (simp add: wrote_refl)
  next
    case True
    show ?thesis
    proof (cases "read_byte src i")
      case (Inl e)
      then have "e = Read_Out_Of_Bounds"
        by (auto simp: read_byte_def split: option.splits if_splits)
      moreover have "sanitize_from dst cap src src_len i col = Inl e"
        using True Inl by (subst sanitize_from.simps) simp
      ultimately show ?thesis by simp
    next
      case (Inr ch)
      consider (nl) "ch = LF \<or> ch = CR"
        | (tab) "\<not> (ch = LF \<or> ch = CR)" "ch = TAB"
        | (ctl) "\<not> (ch = LF \<or> ch = CR)" "ch \<noteq> TAB" "(of_char ch :: nat) < 0x20 \<or> ch = DEL"
        | (vis) "\<not> (ch = LF \<or> ch = CR)" "ch \<noteq> TAB" "\<not> ((of_char ch :: nat) < 0x20 \<or> ch = DEL)"
        by blast
      then show ?thesis
      proof cases
        case nl
        have "sanitize_from dst cap src src_len i col = sanitize_from dst cap src src_len (i + 1) col"
          using True Inr nl by (subst sanitize_from.simps) simp
        then show ?thesis using 1(1)[OF True Inr nl] 1(5,6) by simp
      next
        case tab
        obtain d1 n1 where t: "tab_fill dst cap ((col div 8 + 1) * 8) col = Inr (d1, n1)"
          "wrote cap dst col (d1, n1)"
          using tab_fill_wrote[OF 1(5,6)] by force
        have eq: "sanitize_from dst cap src src_len i col = sanitize_from d1 cap src src_len (i + 1) n1"
          using True Inr tab t(1) by (subst sanitize_from.simps) simp
        have b: "cap \<le> length d1" "n1 \<le> cap" using t(2) 1(5) by (auto simp: wrote_def)
        have "case sanitize_from d1 cap src src_len (i + 1) n1 of
                Inl e \<Rightarrow> e = Read_Out_Of_Bounds | Inr r \<Rightarrow> wrote cap d1 n1 r"
          using 1(2)[OF True Inr tab(1) tab(2) t(1) refl b] .
        then show ?thesis using eq t(2) wrote_trans
          by (auto split: sum.splits)
      next
        case ctl
        let ?d = "dst[col := CHR ''.'']"
        have w: "write_byte dst col (CHR ''.'') = Inr ?d"
          using True 1(5) by (simp add: write_byte_def)
        have eq: "sanitize_from dst cap src src_len i col = sanitize_from ?d cap src src_len (i + 1) (col + 1)"
          using True Inr ctl w by (subst sanitize_from.simps) simp
        have s: "wrote cap dst col (?d, Suc col)"
          using True 1(5) by (intro wrote_step) (auto simp: display_byte_def)
        have "case sanitize_from ?d cap src src_len (i + 1) (col + 1) of
                Inl e \<Rightarrow> e = Read_Out_Of_Bounds | Inr r \<Rightarrow> wrote cap ?d (col + 1) r"
          using 1(3)[OF True Inr ctl(1) ctl(2) ctl(3) w] 1(5) True by simp
        then show ?thesis using eq s wrote_trans
          by (auto split: sum.splits)
      next
        case vis
        let ?d = "dst[col := ch]"
        have w: "write_byte dst col ch = Inr ?d"
          using True 1(5) by (simp add: write_byte_def)
        have eq: "sanitize_from dst cap src src_len i col = sanitize_from ?d cap src src_len (i + 1) (col + 1)"
          using True Inr vis w by (subst sanitize_from.simps) simp
        have s: "wrote cap dst col (?d, Suc col)"
          using True 1(5) vis by (intro wrote_step) (auto simp: display_byte_def)
        have "case sanitize_from ?d cap src src_len (i + 1) (col + 1) of
                Inl e \<Rightarrow> e = Read_Out_Of_Bounds | Inr r \<Rightarrow> wrote cap ?d (col + 1) r"
          using 1(4)[OF True Inr vis(1) vis(2) vis(3) w] 1(5) True by simp
        then show ?thesis using eq s wrote_trans
          by (auto split: sum.splits)
      qed
    qed
  qed
qed


lemma take_update_last: "col < length dst \<Longrightarrow> take (Suc col) (dst[col := c]) = take col dst @ [c]"
  by (simp add: take_Suc_conv_app_nth)

lemma tab_fill_emits:
  "cap \<le> length dst \<Longrightarrow> col \<le> cap \<Longrightarrow> tab_fill dst cap stop col = Inr (d', n) \<Longrightarrow>
     take n d' = take col dst @ replicate (n - col) (CHR '' '')"
proof (induction dst cap stop col rule: tab_fill.induct)
  case (1 dst cap stop col)
  show ?case
  proof (cases "col < stop \<and> col < cap")
    case True
    let ?d = "dst[col := CHR '' '']"
    have w: "write_byte dst col (CHR '' '') = Inr ?d"
      using True 1(2) by (simp add: write_byte_def)
    have r: "tab_fill ?d cap stop (col + 1) = Inr (d', n)"
      using 1(4) True w by (subst (asm) tab_fill.simps) simp
    have ih: "take n d' = take (col + 1) ?d @ replicate (n - (col + 1)) (CHR '' '')"
      using 1(1)[OF True w _ _ r] 1(2) True by simp
    have "col + 1 \<le> n"
      using tab_fill_wrote[of cap ?d "col + 1" stop] r 1(2) True by (auto simp: wrote_def)
    then have "replicate (n - col) (CHR '' '') = CHR '' '' # replicate (n - (col + 1)) (CHR '' '')"
      by (metis Suc_diff_le Suc_eq_plus1 diff_Suc_Suc replicate_Suc)
    then show ?thesis using ih True 1(2) by (simp add: take_update_last)
  next
    case False
    then have "tab_fill dst cap stop col = Inr (dst, col)"
      by (subst tab_fill.simps) auto
    then show ?thesis using 1(4) by simp
  qed
qed

lemma sanitize_from_emits:
  assumes "length xs = src_len" "\<And>j. j < src_len \<Longrightarrow> read_byte src j = Inr (xs ! j)"
  shows "cap \<le> length dst \<Longrightarrow> col \<le> cap \<Longrightarrow>
     \<exists>dst'. sanitize_from dst cap src src_len i col
             = Inr (dst', col + length (sanitized cap col (drop i xs)))
         \<and> take (col + length (sanitized cap col (drop i xs))) dst'
             = take col dst @ sanitized cap col (drop i xs)"
  using assms
proof (induction dst cap src src_len i col rule: sanitize_from.induct)
  case (1 dst cap src src_len i col)
  note len = 1(7) and rdb = 1(8)
  show ?case
  proof (cases "i < src_len \<and> col < cap")
    case False
    have "sanitize_from dst cap src src_len i col = Inr (dst, col)"
      using False by (subst sanitize_from.simps) auto
    moreover have "sanitized cap col (drop i xs) = []"
    proof (cases "i < src_len")
      case True
      then have "\<not> col < cap" using False by simp
      then show ?thesis by (cases "drop i xs") auto
    next
      case False
      then show ?thesis using len by simp
    qed
    ultimately show ?thesis by simp
  next
    case True
    define ch where "ch = xs ! i"
    have rd: "read_byte src i = Inr ch"
      using True rdb by (simp add: ch_def)
    have dr: "drop i xs = ch # drop (i + 1) xs"
      using True len by (simp add: ch_def Cons_nth_drop_Suc)
    consider (nl) "ch = LF \<or> ch = CR"
      | (tab) "\<not> (ch = LF \<or> ch = CR)" "ch = TAB"
      | (ctl) "\<not> (ch = LF \<or> ch = CR)" "ch \<noteq> TAB" "(of_char ch :: nat) < 0x20 \<or> ch = DEL"
      | (vis) "\<not> (ch = LF \<or> ch = CR)" "ch \<noteq> TAB" "\<not> ((of_char ch :: nat) < 0x20 \<or> ch = DEL)"
      by blast
    then show ?thesis
    proof cases
      case nl
      have eq: "sanitize_from dst cap src src_len i col = sanitize_from dst cap src src_len (i + 1) col"
        using True rd nl by (subst sanitize_from.simps) simp
      have o: "sanitized cap col (drop i xs) = sanitized cap col (drop (i + 1) xs)"
        using True nl by (simp add: dr)
      show ?thesis using 1(1)[OF True rd nl 1(5,6) len rdb] by (simp only: eq o)
    next
      case tab
      let ?stop = "(col div 8 + 1) * 8"
      obtain d1 n1 where t: "tab_fill dst cap ?stop col = Inr (d1, n1)"
        "wrote cap dst col (d1, n1)" "n1 = max col (min ?stop cap)"
        using tab_fill_wrote[OF 1(5,6), of ?stop] by force
      have n1: "n1 = min ?stop cap" "col \<le> n1"
        using t(3) True by (auto simp: max_def min_def)
      have e1: "take n1 d1 = take col dst @ replicate (n1 - col) (CHR '' '')"
        using tab_fill_emits[OF 1(5,6) t(1)] .
      have eq: "sanitize_from dst cap src src_len i col = sanitize_from d1 cap src src_len (i + 1) n1"
        using True rd tab t(1) by (subst sanitize_from.simps) simp
      have b: "cap \<le> length d1" "n1 \<le> cap" using t(2) 1(5) by (auto simp: wrote_def)
      let ?o2 = "sanitized cap n1 (drop (i + 1) xs)"
      have o: "sanitized cap col (drop i xs) = replicate (n1 - col) (CHR '' '') @ ?o2"
        using True tab n1 by (simp add: dr)
      obtain dst' where ih: "sanitize_from d1 cap src src_len (i + 1) n1 = Inr (dst', n1 + length ?o2)"
        "take (n1 + length ?o2) dst' = take n1 d1 @ ?o2"
        using 1(2)[OF True rd tab(1) tab(2) t(1) refl b len rdb] by blast
      have l: "col + length (sanitized cap col (drop i xs)) = n1 + length ?o2"
        using n1(2) by (simp only: o length_append length_replicate)
      show ?thesis using ih e1 by (simp only: eq l) (simp add: o)
    next
      case ctl
      let ?d = "dst[col := CHR ''.'']"
      have w: "write_byte dst col (CHR ''.'') = Inr ?d"
        using True 1(5) by (simp add: write_byte_def)
      have eq: "sanitize_from dst cap src src_len i col = sanitize_from ?d cap src src_len (i + 1) (col + 1)"
        using True rd ctl w by (subst sanitize_from.simps) simp
      let ?o2 = "sanitized cap (col + 1) (drop (i + 1) xs)"
      have o: "sanitized cap col (drop i xs) = CHR ''.'' # ?o2"
        using True ctl by (simp add: dr)
      have b: "cap \<le> length ?d" "col + 1 \<le> cap" using 1(5) True by auto
      obtain dst' where ih: "sanitize_from ?d cap src src_len (i + 1) (col + 1) = Inr (dst', col + 1 + length ?o2)"
        "take (col + 1 + length ?o2) dst' = take (col + 1) ?d @ ?o2"
        using 1(3)[OF True rd ctl(1) ctl(2) ctl(3) w b len rdb] by blast
      have tk: "take (col + 1) ?d = take col dst @ [CHR ''.'']"
        using True 1(5) by (simp add: take_update_last)
      show ?thesis using ih tk by (simp only: eq) (simp add: o)
    next
      case vis
      let ?d = "dst[col := ch]"
      have w: "write_byte dst col ch = Inr ?d"
        using True 1(5) by (simp add: write_byte_def)
      have eq: "sanitize_from dst cap src src_len i col = sanitize_from ?d cap src src_len (i + 1) (col + 1)"
        using True rd vis w by (subst sanitize_from.simps) simp
      let ?o2 = "sanitized cap (col + 1) (drop (i + 1) xs)"
      have o: "sanitized cap col (drop i xs) = ch # ?o2"
        using True vis by (simp add: dr)
      have b: "cap \<le> length ?d" "col + 1 \<le> cap" using 1(5) True by auto
      obtain dst' where ih: "sanitize_from ?d cap src src_len (i + 1) (col + 1) = Inr (dst', col + 1 + length ?o2)"
        "take (col + 1 + length ?o2) dst' = take (col + 1) ?d @ ?o2"
        using 1(4)[OF True rd vis(1) vis(2) vis(3) w b len rdb] by blast
      have tk: "take (col + 1) ?d = take col dst @ [ch]"
        using True 1(5) by (simp add: take_update_last)
      show ?thesis using ih tk by (simp only: eq) (simp add: o)
    qed
  qed
qed

lemma readable_bytes:
  assumes "readable (p, n)"
  shows "length (line_bytes p n) = n" "\<And>j. j < n \<Longrightarrow> read_byte p j = Inr (line_bytes p n ! j)"
  using assms
  by (auto simp: readable_def line_bytes_def read_byte_def nth_append min_def split: option.splits)

lemma sanitize_line_emits:
  assumes "readable (p, n)" "cap \<le> length dst"
  shows "\<exists>dst'. sanitize_line dst cap p n = Inr (dst', length (sanitized cap 0 (line_bytes p n)))
           \<and> take (length (sanitized cap 0 (line_bytes p n))) dst' = sanitized cap 0 (line_bytes p n)
           \<and> length dst' = length dst"
proof -
  obtain dst' where d: "sanitize_from dst cap p n 0 0 = Inr (dst', 0 + length (sanitized cap 0 (drop 0 (line_bytes p n))))"
     "take (0 + length (sanitized cap 0 (drop 0 (line_bytes p n)))) dst' = take 0 dst @ sanitized cap 0 (drop 0 (line_bytes p n))"
    using sanitize_from_emits[OF readable_bytes[OF assms(1)] assms(2), of 0 0] by blast
  have "wrote cap dst 0 (dst', length (sanitized cap 0 (line_bytes p n)))"
    using sanitize_from_wrote[OF assms(2), of 0 p n 0] d(1) by simp
  then have "length dst' = length dst" by (simp add: wrote_def)
  then show ?thesis using d by (simp add: sanitize_line_def)
qed

text \<open>
  C5. For every line, source length and capacity: when the caller's buffer has at
  least \<open>dst_cap\<close> bytes, \<^verbatim>\<open>sanitize_line\<close> never writes outside it; it returns at
  most \<open>dst_cap\<close>, leaves every byte from the returned length on as it was, and the
  bytes it returns contain no newline, carriage return, other C0 control byte or
  DEL. It returns for every source whose \<open>src_len\<close> bytes can be read; the only
  fault is a read beyond the source.
\<close>

theorem sanitize_line_safe:
  assumes "dst_cap \<le> length dst"
  shows "(case sanitize_line dst dst_cap src src_len of
            Inl e \<Rightarrow> e = Read_Out_Of_Bounds \<and> \<not> readable (src, src_len)
          | Inr (dst', n) \<Rightarrow>
              n \<le> dst_cap \<and> length dst' = length dst \<and> drop n dst' = drop n dst
              \<and> (\<forall>c \<in> set (take n dst').
                    c \<noteq> LF \<and> c \<noteq> CR \<and> \<not> (of_char c :: nat) < 0x20 \<and> c \<noteq> DEL))
       \<and> (readable (src, src_len) \<longrightarrow>
            (\<exists>dst' n. sanitize_line dst dst_cap src src_len = Inr (dst', n)))"
proof -
  have w: "case sanitize_line dst dst_cap src src_len of
             Inl e \<Rightarrow> e = Read_Out_Of_Bounds | Inr r \<Rightarrow> wrote dst_cap dst 0 r"
    using sanitize_from_wrote[OF assms, of 0 src src_len 0] by (simp add: sanitize_line_def)
  have t: "\<exists>dst' n. sanitize_line dst dst_cap src src_len = Inr (dst', n)"
    if "readable (src, src_len)"
    using sanitize_line_emits[OF that assms] by blast
  show ?thesis
  proof (cases "sanitize_line dst dst_cap src src_len")
    case (Inl e)
    then show ?thesis using w t by auto
  next
    case (Inr r)
    obtain dst' n where r: "r = (dst', n)" by (cases r)
    have wr: "wrote dst_cap dst 0 (dst', n)" using w Inr r by simp
    have "c \<noteq> LF \<and> c \<noteq> CR \<and> \<not> (of_char c :: nat) < 0x20 \<and> c \<noteq> DEL"
      if "c \<in> set (take n dst')" for c
    proof -
      have "\<exists>k < length (take n dst'). take n dst' ! k = c"
        using that by (simp only: in_set_conv_nth)
      then obtain k where "k < length (take n dst')" "take n dst' ! k = c" by blast
      then have k: "k < n" "k < length dst'" "c = dst' ! k" by simp_all
      then have "display_byte c" using wr by (simp add: wrote_def)
      then show ?thesis by (auto simp: display_byte_def)
    qed
    then show ?thesis using wr Inr r by (auto simp: wrote_def)
  qed
qed

theorem sanitize_line_safe_witness:
  "5 \<le> length (replicate 6 NUL) \<and> readable (Some ''hello world'', 11)
   \<and> sanitize_line (replicate 6 NUL) 5 (Some ''hello world'') 11 = Inr (''hello'' @ [NUL], 5)"
proof -
  have h: "5 \<le> length (replicate 6 NUL)" by simp
  note t = sanitize_line_safe [OF h, of "Some ''hello world''" 11]
  have r: "readable (Some ''hello world'', 11)" by (simp add: readable_def)
  obtain dst' n where e: "sanitize_line (replicate 6 NUL) 5 (Some ''hello world'') 11 = Inr (dst', n)"
    using t r by blast
  have "sanitize_line (replicate 6 NUL) 5 (Some ''hello world'') 11 = Inr (''hello'' @ [NUL], 5)"
    by code_simp
  then show ?thesis using h r e by simp
qed

text \<open>
  C9. The bytes 'a', TAB, 'b' with capacity 80 give "a       b" (the 'b' lands in
  column 8); and a tab met in column \<open>col\<close> below the capacity writes spaces up to
  the next multiple of 8 or up to the capacity, whichever comes first.
\<close>

theorem tab_expansion:
  "(80 \<le> length dst \<longrightarrow>
      (\<exists>dst'. sanitize_line dst 80 (Some [CHR ''a'', TAB, CHR ''b'']) 3 = Inr (dst', 9)
             \<and> take 9 dst' = ''a       b''))
   \<and> (col < cap \<and> cap \<le> length dst \<longrightarrow>
      (\<exists>dst'. tab_fill dst cap ((col div 8 + 1) * 8) col
                = Inr (dst', min ((col div 8 + 1) * 8) cap)
             \<and> take (min ((col div 8 + 1) * 8) cap) dst'
                = take col dst @ replicate (min ((col div 8 + 1) * 8) cap - col) (CHR '' '')))"
proof (intro conjI impI)
  assume l: "80 \<le> length dst"
  have r: "readable (Some [CHR ''a'', TAB, CHR ''b''], 3)" by (simp add: readable_def)
  have s: "sanitized 80 0 (line_bytes (Some [CHR ''a'', TAB, CHR ''b'']) 3) = ''a       b''"
    by code_simp
  show "\<exists>dst'. sanitize_line dst 80 (Some [CHR ''a'', TAB, CHR ''b'']) 3 = Inr (dst', 9)
             \<and> take 9 dst' = ''a       b''"
  proof -
    have n: "length ''a       b'' = 9" by simp
    show ?thesis using sanitize_line_emits[OF r l] unfolding s n by blast
  qed
next
  assume a: "col < cap \<and> cap \<le> length dst"
  let ?stop = "(col div 8 + 1) * 8"
  obtain d n where t: "tab_fill dst cap ?stop col = Inr (d, n)" "n = max col (min ?stop cap)"
    using tab_fill_wrote[of cap dst col ?stop] a by force
  have "col < ?stop" by (simp add: dividend_less_times_div)
  then have n: "n = min ?stop cap" using t(2) a by (auto simp: max_def min_def)
  have "take n d = take col dst @ replicate (n - col) (CHR '' '')"
    using tab_fill_emits[of cap dst col ?stop d n] a t(1) by simp
  then show "\<exists>dst'. tab_fill dst cap ?stop col = Inr (dst', min ?stop cap)
             \<and> take (min ?stop cap) dst' = take col dst @ replicate (min ?stop cap - col) (CHR '' '')"
    using t(1) n by auto
qed

theorem tab_expansion_witness:
  "80 \<le> length (replicate 81 NUL) \<and> (9::nat) < 12 \<and> 12 \<le> length (replicate 81 NUL)
   \<and> sanitize_line (replicate 81 NUL) 80 (Some [CHR ''a'', TAB, CHR ''b'']) 3
        = Inr (''a       b'' @ replicate 72 NUL, 9)
   \<and> tab_fill (replicate 81 NUL) 12 16 9 = Inr (replicate 9 NUL @ ''   '' @ replicate 69 NUL, 12)"
proof -
  note t = tab_expansion [of "replicate 81 NUL" 9 12]
  have a: "\<exists>dst'. sanitize_line (replicate 81 NUL) 80 (Some [CHR ''a'', TAB, CHR ''b'']) 3 = Inr (dst', 9)
             \<and> take 9 dst' = ''a       b''"
    using t by simp
  have b: "\<exists>dst'. tab_fill (replicate 81 NUL) 12 16 9 = Inr (dst', 12)"
    using t by auto
  have c: "sanitize_line (replicate 81 NUL) 80 (Some [CHR ''a'', TAB, CHR ''b'']) 3
     = Inr (''a       b'' @ replicate 72 NUL, 9)"
    by code_simp
  have d: "tab_fill (replicate 81 NUL) 12 16 9 = Inr (replicate 9 NUL @ ''   '' @ replicate 69 NUL, 12)"
    by code_simp
  show ?thesis using a b c d by simp
qed

section \<open>Properties of the frame compositor\<close>

lemma ring_readableD: "ring_readable rb \<Longrightarrow> i < count rb \<Longrightarrow> readable (ringbuf_get rb i)"
  by (simp add: ring_readable_def entries_def list_all_iff)

lemma dbuf_printf_eq: "dbuf_printf s txt = s\<lparr>g_draw_buf := g_draw_buf s @ printed txt\<rparr>"
  by (auto simp: dbuf_printf_def dbuf_append_def printed_def Let_def)

lemma frame_row_draw_buf [simp]:
  "frame_row (s\<lparr>g_draw_buf := b\<rparr>) h cc base = frame_row s h cc base"
  by (rule ext) (simp add: frame_row_def gutter_def split: option.split)

lemma row_index_lt: "row_index cnt h row = Some idx \<Longrightarrow> row < h \<Longrightarrow> idx < cnt"
  by (auto simp: row_index_def split: if_splits)

lemma draw_rows_step:
  assumes "int r < height" "ring_readable (g_ring s)" "nat content_cols \<le> length san"
  shows "\<exists>san'. length san' = length san
           \<and> draw_rows height content_cols base san (int r) s
               = draw_rows height content_cols base san' (int r + 1)
                   (s\<lparr>g_draw_buf := g_draw_buf s @ frame_row s height content_cols base r\<rparr>)"
proof (cases "r < count (g_ring s)")
  case True
  define idx where "idx = (if count (g_ring s) \<le> nat height then r
                            else count (g_ring s) - nat height + r)"
  obtain p len where g: "ringbuf_get (g_ring s) idx = (p, len)" by (cases "ringbuf_get (g_ring s) idx")
  have "idx < count (g_ring s)" using True assms(1) by (auto simp: idx_def)
  then have r: "readable (p, len)" using ring_readableD[OF assms(2), of idx] g by simp
  obtain san' where e: "sanitize_line san (nat content_cols) p len
                         = Inr (san', length (sanitized (nat content_cols) 0 (line_bytes p len)))"
    "take (length (sanitized (nat content_cols) 0 (line_bytes p len))) san'
       = sanitized (nat content_cols) 0 (line_bytes p len)"
    "length san' = length san"
    using sanitize_line_emits[OF r assms(3)] by blast
  have ri: "row_index (count (g_ring s)) (nat height) r = Some idx"
    using True by (simp add: row_index_def idx_def)
  have "draw_rows height content_cols base san (int r) s
               = draw_rows height content_cols base san' (int r + 1)
                   (s\<lparr>g_draw_buf := g_draw_buf s @ frame_row s height content_cols base r\<rparr>)"
    apply (subst draw_rows.simps)
    using assms(1) True g e
    apply (cases "g_line_numbers s"; cases "g_color s"; cases "count (g_ring s) \<le> nat height")
    apply (simp_all add: Let_def dbuf_append_def dbuf_printf_eq frame_row_def gutter_def ri idx_def)
    done
  then show ?thesis using e(3) by blast
next
  case False
  have r: "readable (Some [], 0)" by (simp add: readable_def)
  obtain san' where e: "sanitize_line san (nat content_cols) (Some []) 0
                         = Inr (san', length (sanitized (nat content_cols) 0 (line_bytes (Some []) 0)))"
    "length san' = length san"
    using sanitize_line_emits[OF r assms(3)] by blast
  have z: "sanitized (nat content_cols) 0 (line_bytes (Some []) 0) = []"
    by (simp add: line_bytes_def)
  have ri: "row_index (count (g_ring s)) (nat height) r = None"
    using False by (simp add: row_index_def)
  have "draw_rows height content_cols base san (int r) s
               = draw_rows height content_cols base san' (int r + 1)
                   (s\<lparr>g_draw_buf := g_draw_buf s @ frame_row s height content_cols base r\<rparr>)"
    apply (subst draw_rows.simps)
    using assms(1) False e
    apply (cases "g_line_numbers s"; cases "g_color s")
    apply (simp_all add: Let_def dbuf_append_def dbuf_printf_eq frame_row_def gutter_def ri z)
    done
  then show ?thesis using e(2) by blast
qed


lemma draw_rows_eq:
  "n = nat height - r \<Longrightarrow> ring_readable (g_ring s) \<Longrightarrow> nat content_cols \<le> length san \<Longrightarrow>
     draw_rows height content_cols base san (int r) s
       = Inr (s\<lparr>g_draw_buf := g_draw_buf s @ frame_rows s height content_cols base r\<rparr>)"
proof (induction n arbitrary: r s san)
  case 0
  then have "\<not> int r < height" by simp
  then have d: "draw_rows height content_cols base san (int r) s = Inr s"
    by (subst draw_rows.simps) simp
  have e: "frame_rows s height content_cols base r = []"
    using 0 by (simp add: frame_rows_def)
  show ?case by (simp add: d e)
next
  case (Suc n)
  then have lt: "int r < height" "r < nat height" by auto
  obtain san' where st: "length san' = length san"
    "draw_rows height content_cols base san (int r) s
       = draw_rows height content_cols base san' (int r + 1)
           (s\<lparr>g_draw_buf := g_draw_buf s @ frame_row s height content_cols base r\<rparr>)"
    using draw_rows_step[OF lt(1) Suc.prems(2,3)] by blast
  let ?s = "s\<lparr>g_draw_buf := g_draw_buf s @ frame_row s height content_cols base r\<rparr>"
  have "draw_rows height content_cols base san' (int (Suc r)) ?s
          = Inr (?s\<lparr>g_draw_buf := g_draw_buf ?s @ frame_rows ?s height content_cols base (Suc r)\<rparr>)"
    using Suc.prems st(1) by (intro Suc.IH) auto
  moreover have "frame_rows ?s height content_cols base (Suc r) = frame_rows s height content_cols base (Suc r)"
    by (simp add: frame_rows_def)
  moreover have "frame_rows s height content_cols base r
                  = frame_row s height content_cols base r @ frame_rows s height content_cols base (Suc r)"
    using lt(2) by (simp add: frame_rows_def upt_conv_Cons)
  ultimately show ?case using st(2) by (simp add: add.commute)
qed

lemma frame_rows_draw_buf [simp]:
  "frame_rows (s\<lparr>g_draw_buf := b\<rparr>) h cc base r = frame_rows s h cc base r"
  by (simp add: frame_rows_def)

lemma build_redraw_unfold:
  "build_redraw s =
     (case draw_rows (clamp_height s) (content_width s) (first_number s)
             (replicate (nat (content_width s) + 1) NUL) 0
             (s\<lparr>g_draw_buf := g_draw_buf s @ printed (cursor_to (g_win_top s))\<rparr>) of
        Inl e \<Rightarrow> Inl e
      | Inr s2 \<Rightarrow>
          Inr (if g_scroll_bottom s2 > 0
               then dbuf_printf s2 (cursor_to (g_scroll_bottom s2))
               else s2))"
  by (simp add: build_redraw_def content_width_def first_number_def Let_def dbuf_printf_eq)

lemma build_redraw_eq:
  assumes "ring_readable (g_ring s)"
  shows "build_redraw s = Inr (s\<lparr>g_draw_buf := g_draw_buf s @ frame s\<rparr>)"
proof -
  let ?s1 = "s\<lparr>g_draw_buf := g_draw_buf s @ printed (cursor_to (g_win_top s))\<rparr>"
  have "nat (content_width s) \<le> length (replicate (nat (content_width s) + 1) NUL)" by simp
  moreover have "ring_readable (g_ring ?s1)" using assms by simp
  ultimately have d: "draw_rows (clamp_height s) (content_width s) (first_number s)
            (replicate (nat (content_width s) + 1) NUL) (int 0) ?s1
        = Inr (?s1\<lparr>g_draw_buf := g_draw_buf ?s1
                 @ frame_rows ?s1 (clamp_height s) (content_width s) (first_number s) 0\<rparr>)"
    by (intro draw_rows_eq) auto
  show ?thesis
    using d by (simp add: build_redraw_unfold frame_def dbuf_printf_eq)
qed


lemma draw_rows_next:
  assumes "int r < height" "row_source s height r = (p, len)"
    "sanitize_line san (nat content_cols) p len = Inr (san', slen)"
  shows "\<exists>b. draw_rows height content_cols base san (int r) s
           = draw_rows height content_cols base san' (int r + 1) (s\<lparr>g_draw_buf := b\<rparr>)"
proof (cases "r < count (g_ring s)")
  case True
  define idx where "idx = (if count (g_ring s) \<le> nat height then r
                            else count (g_ring s) - nat height + r)"
  have g: "ringbuf_get (g_ring s) idx = (p, len)"
    using assms(2) True by (simp add: row_source_def row_index_def idx_def)
  show ?thesis
    apply (subst draw_rows.simps)
    using assms(1,3) True g
    apply (cases "g_line_numbers s"; cases "g_color s"; cases "count (g_ring s) \<le> nat height";
           cases "0 < slen"; cases "int r < height - 1")
    apply (simp_all add: Let_def dbuf_append_def dbuf_printf_eq idx_def)
    apply blast+
    done
next
  case False
  have g: "p = Some []" "len = 0"
    using assms(2) False by (simp_all add: row_source_def row_index_def)
  show ?thesis
    apply (subst draw_rows.simps)
    using assms(1,3) False g
    apply (cases "g_line_numbers s"; cases "g_color s"; cases "0 < slen"; cases "int r < height - 1")
    apply (simp_all add: Let_def dbuf_append_def dbuf_printf_eq)
    apply blast+
    done
qed

lemma draw_rows_fault:
  assumes "int r < height" "row_source s height r = (p, len)"
    "sanitize_line san (nat content_cols) p len = Inl e"
  shows "draw_rows height content_cols base san (int r) s = Inl e"
proof (cases "r < count (g_ring s)")
  case True
  define idx where "idx = (if count (g_ring s) \<le> nat height then r
                            else count (g_ring s) - nat height + r)"
  have g: "ringbuf_get (g_ring s) idx = (p, len)"
    using assms(2) True by (simp add: row_source_def row_index_def idx_def)
  show ?thesis
    apply (subst draw_rows.simps)
    using assms(1,3) True g
    apply (cases "g_line_numbers s"; cases "g_color s"; cases "count (g_ring s) \<le> nat height")
    apply (simp_all add: Let_def dbuf_append_def dbuf_printf_eq idx_def)
    done
next
  case False
  have g: "p = Some []" "len = 0"
    using assms(2) False by (simp_all add: row_source_def row_index_def)
  show ?thesis
    apply (subst draw_rows.simps)
    using assms(1,3) False g
    apply (cases "g_line_numbers s"; cases "g_color s")
    apply (simp_all add: Let_def dbuf_append_def dbuf_printf_eq)
    done
qed

lemma draw_rows_frame:
  "n = nat height - r \<Longrightarrow> draw_rows height content_cols base san (int r) s = Inr s' \<Longrightarrow>
     \<exists>buf. s' = s\<lparr>g_draw_buf := buf\<rparr>"
proof (induction n arbitrary: r san s)
  case 0
  then have "\<not> int r < height" by simp
  then have "draw_rows height content_cols base san (int r) s = Inr s"
    by (subst draw_rows.simps) simp
  then have "s' = s\<lparr>g_draw_buf := g_draw_buf s\<rparr>" using 0 by simp
  then show ?case by blast
next
  case (Suc n)
  then have lt: "int r < height" by auto
  have n: "n = nat height - Suc r" using Suc.prems(1) by simp
  obtain p len where src: "row_source s height r = (p, len)" by (cases "row_source s height r")
  show ?case
  proof (cases "sanitize_line san (nat content_cols) p len")
    case (Inl e)
    then show ?thesis using draw_rows_fault[OF lt src Inl] Suc.prems(2) by simp
  next
    case (Inr x)
    obtain san' slen where x: "x = (san', slen)" by (cases x)
    obtain b where "draw_rows height content_cols base san (int r) s
           = draw_rows height content_cols base san' (int r + 1) (s\<lparr>g_draw_buf := b\<rparr>)"
      using draw_rows_next[OF lt src Inr[unfolded x]] by blast
    then have "draw_rows height content_cols base san' (int (Suc r)) (s\<lparr>g_draw_buf := b\<rparr>) = Inr s'"
      using Suc.prems(2) by (simp add: add.commute)
    then obtain buf where "s' = s\<lparr>g_draw_buf := b\<rparr>\<lparr>g_draw_buf := buf\<rparr>"
      using Suc.IH[OF n] by blast
    then have "s' = s\<lparr>g_draw_buf := buf\<rparr>" by simp
    then show ?thesis by blast
  qed
qed

lemma build_redraw_frame:
  "build_redraw s = Inr s' \<Longrightarrow> \<exists>buf. s' = s\<lparr>g_draw_buf := buf\<rparr>"
proof -
  assume a: "build_redraw s = Inr s'"
  then obtain s2 where d: "draw_rows (clamp_height s) (content_width s) (first_number s)
             (replicate (nat (content_width s) + 1) NUL) (int 0)
             (s\<lparr>g_draw_buf := g_draw_buf s @ printed (cursor_to (g_win_top s))\<rparr>) = Inr s2"
    and s': "s' = (if g_scroll_bottom s2 > 0 then dbuf_printf s2 (cursor_to (g_scroll_bottom s2)) else s2)"
    by (auto simp: build_redraw_unfold split: sum.splits)
  obtain buf where "s2 = s\<lparr>g_draw_buf := g_draw_buf s @ printed (cursor_to (g_win_top s))\<rparr>\<lparr>g_draw_buf := buf\<rparr>"
    using draw_rows_frame[OF _ d] by blast
  then show ?thesis using s' by (auto simp: dbuf_printf_eq)
qed

lemma redraw_window_frame:
  "redraw_window s outcome = Inr s' \<Longrightarrow> \<exists>buf out. s' = s\<lparr>g_draw_buf := buf, tty := out\<rparr>"
proof (cases "g_is_tty s")
  case False
  assume "redraw_window s outcome = Inr s'"
  then have "s' = s\<lparr>g_draw_buf := g_draw_buf s, tty := tty s\<rparr>"
    using False by (simp add: redraw_window_def)
  then show ?thesis by blast
next
  case True
  assume a: "redraw_window s outcome = Inr s'"
  then obtain s1 where b: "build_redraw (dbuf_reset s) = Inr s1" and s': "s' = dbuf_flush s1 outcome"
    using True by (auto simp: redraw_window_def split: sum.splits)
  obtain buf where "s1 = (dbuf_reset s)\<lparr>g_draw_buf := buf\<rparr>"
    using build_redraw_frame[OF b] by blast
  then have "s' = s\<lparr>g_draw_buf := buf, tty := tty s'\<rparr>"
    using s' by (auto simp: dbuf_flush_def tty_write_def dbuf_reset_def)
  then show ?thesis by blast
qed

lemma redraw_window_returns:
  "ring_readable (g_ring s) \<Longrightarrow> \<exists>s'. redraw_window s outcome = Inr s'"
  by (simp add: redraw_window_def build_redraw_eq dbuf_reset_def)

text \<open>
  C10. Composing and emitting a frame changes the draw buffer only (and, for
  \<^verbatim>\<open>redraw_window\<close>, what the terminal has received): whenever
  \<^verbatim>\<open>build_redraw\<close> or \<^verbatim>\<open>redraw_window\<close> returns, the line history, the total-line
  counter and the geometry (rows, columns, window top, scroll bottom, configured
  height) are as before. Both return for every state whose history is readable.
\<close>

theorem redraw_changes_draw_buffer_only:
  "(\<forall>s'. build_redraw s = Inr s' \<longrightarrow>
       g_ring s' = g_ring s \<and> g_total_lines s' = g_total_lines s
       \<and> g_term_rows s' = g_term_rows s \<and> g_term_cols s' = g_term_cols s
       \<and> g_win_top s' = g_win_top s \<and> g_scroll_bottom s' = g_scroll_bottom s
       \<and> g_win_height s' = g_win_height s \<and> s' = s\<lparr>g_draw_buf := g_draw_buf s'\<rparr>)
   \<and> (\<forall>s'. redraw_window s outcome = Inr s' \<longrightarrow>
       g_ring s' = g_ring s \<and> g_total_lines s' = g_total_lines s
       \<and> g_term_rows s' = g_term_rows s \<and> g_term_cols s' = g_term_cols s
       \<and> g_win_top s' = g_win_top s \<and> g_scroll_bottom s' = g_scroll_bottom s
       \<and> g_win_height s' = g_win_height s
       \<and> s' = s\<lparr>g_draw_buf := g_draw_buf s', tty := tty s'\<rparr>)
   \<and> (ring_readable (g_ring s) \<longrightarrow>
       (\<exists>s'. build_redraw s = Inr s') \<and> (\<exists>s'. redraw_window s outcome = Inr s'))"
proof (intro conjI allI impI)
  fix s' assume "build_redraw s = Inr s'"
  then obtain buf where e: "s' = s\<lparr>g_draw_buf := buf\<rparr>" using build_redraw_frame by blast
  show "g_ring s' = g_ring s" "g_total_lines s' = g_total_lines s"
    "g_term_rows s' = g_term_rows s" "g_term_cols s' = g_term_cols s"
    "g_win_top s' = g_win_top s" "g_scroll_bottom s' = g_scroll_bottom s"
    "g_win_height s' = g_win_height s" "s' = s\<lparr>g_draw_buf := g_draw_buf s'\<rparr>"
    by (simp_all add: e)
next
  fix s' assume "redraw_window s outcome = Inr s'"
  then obtain buf out where e: "s' = s\<lparr>g_draw_buf := buf, tty := out\<rparr>"
    using redraw_window_frame by blast
  show "g_ring s' = g_ring s" "g_total_lines s' = g_total_lines s"
    "g_term_rows s' = g_term_rows s" "g_term_cols s' = g_term_cols s"
    "g_win_top s' = g_win_top s" "g_scroll_bottom s' = g_scroll_bottom s"
    "g_win_height s' = g_win_height s" "s' = s\<lparr>g_draw_buf := g_draw_buf s', tty := tty s'\<rparr>"
    by (simp_all add: e)
next
  assume r: "ring_readable (g_ring s)"
  show "\<exists>s'. build_redraw s = Inr s'" using build_redraw_eq[OF r] by blast
  show "\<exists>s'. redraw_window s outcome = Inr s'" using redraw_window_returns[OF r] .
qed

lemma ring_readable_init: "0 < C \<Longrightarrow> ring_readable (ringbuf_init C)"
  by (simp add: ring_readable_def ring_wf_def entries_def ringbuf_init_def)

theorem redraw_changes_draw_buffer_only_witness:
  "ring_readable (g_ring initial_state)
   \<and> (\<exists>s'. build_redraw initial_state = Inr s' \<and> g_ring s' = g_ring initial_state
            \<and> g_total_lines s' = g_total_lines initial_state
            \<and> g_win_top s' = g_win_top initial_state)
   \<and> (\<exists>s'. redraw_window (initial_state\<lparr>g_is_tty := True, g_tty_fd := 3\<rparr>) (Some 1000) = Inr s'
            \<and> g_ring s' = g_ring initial_state
            \<and> g_win_height s' = g_win_height initial_state)"
proof -
  have r: "ring_readable (g_ring initial_state)"
    by (simp add: initial_state_def ring_readable_init)
  have r2: "ring_readable (g_ring (initial_state\<lparr>g_is_tty := True, g_tty_fd := 3\<rparr>))"
    by (simp add: initial_state_def ring_readable_init)
  note a = redraw_changes_draw_buffer_only [of initial_state None]
  note b = redraw_changes_draw_buffer_only [of "initial_state\<lparr>g_is_tty := True, g_tty_fd := 3\<rparr>" "Some 1000"]
  obtain s1 where s1: "build_redraw initial_state = Inr s1" using a r by blast
  obtain s2 where s2: "redraw_window (initial_state\<lparr>g_is_tty := True, g_tty_fd := 3\<rparr>) (Some 1000) = Inr s2"
    using b r2 by blast
  have "g_ring s1 = g_ring initial_state \<and> g_total_lines s1 = g_total_lines initial_state
            \<and> g_win_top s1 = g_win_top initial_state"
    using a s1 by blast
  moreover have "g_ring s2 = g_ring initial_state \<and> g_win_height s2 = g_win_height initial_state"
    using b s2 by simp
  ultimately show ?thesis using r s1 s2 by blast
qed





section \<open>Properties of the terminal session\<close>

lemma clamp_height_eq:
  "clamp_height s = max 1 (min (g_win_height s) (g_term_rows s - 1))"
  by (simp add: clamp_height_def Let_def max_def min_def)

lemma gutter_fields [simp]:
  "gutter (s\<lparr>g_draw_buf := b\<rparr>) = gutter s"
  "gutter (s\<lparr>tty := t\<rparr>) = gutter s"
  "gutter (s\<lparr>g_started := x\<rparr>) = gutter s"
  by (rule ext, simp add: gutter_def)+

lemma clamp_height_fields [simp]:
  "clamp_height (s\<lparr>g_draw_buf := b\<rparr>) = clamp_height s"
  "clamp_height (s\<lparr>tty := t\<rparr>) = clamp_height s"
  "clamp_height (s\<lparr>g_started := x\<rparr>) = clamp_height s"
  by (simp_all add: clamp_height_eq)

lemma content_width_fields [simp]:
  "content_width (s\<lparr>g_draw_buf := b\<rparr>) = content_width s"
  "content_width (s\<lparr>tty := t\<rparr>) = content_width s"
  "content_width (s\<lparr>g_started := x\<rparr>) = content_width s"
  by (simp_all add: content_width_def Let_def)

lemma first_number_fields [simp]:
  "first_number (s\<lparr>g_draw_buf := b\<rparr>) = first_number s"
  "first_number (s\<lparr>tty := t\<rparr>) = first_number s"
  "first_number (s\<lparr>g_started := x\<rparr>) = first_number s"
  by (simp_all add: first_number_def Let_def)

lemma frame_row_fields [simp]:
  "frame_row (s\<lparr>tty := t\<rparr>) h cc base = frame_row s h cc base"
  "frame_row (s\<lparr>g_started := x\<rparr>) h cc base = frame_row s h cc base"
  by (rule ext, simp add: frame_row_def split: option.split)+

lemma frame_fields [simp]:
  "frame (s\<lparr>g_draw_buf := b\<rparr>) = frame s"
  "frame (s\<lparr>tty := t\<rparr>) = frame s"
  "frame (s\<lparr>g_started := x\<rparr>) = frame s"
  by (simp_all add: frame_def frame_rows_def)

lemma dbuf_flush_fields [simp]:
  "g_ring (dbuf_flush s oc) = g_ring s"
  "g_win_height (dbuf_flush s oc) = g_win_height s"
  "g_term_rows (dbuf_flush s oc) = g_term_rows s"
  "g_term_cols (dbuf_flush s oc) = g_term_cols s"
  "g_win_top (dbuf_flush s oc) = g_win_top s"
  "g_scroll_bottom (dbuf_flush s oc) = g_scroll_bottom s"
  "g_started (dbuf_flush s oc) = g_started s"
  "g_tty_fd (dbuf_flush s oc) = g_tty_fd s"
  "g_is_tty (dbuf_flush s oc) = g_is_tty s"
  "g_draw_buf (dbuf_flush s oc) = g_draw_buf s"
  "g_resize (dbuf_flush s oc) = g_resize s"
  "g_files (dbuf_flush s oc) = g_files s"
  "stderr (dbuf_flush s oc) = stderr s"
  "stdout (dbuf_flush s oc) = stdout s"
  "g_total_lines (dbuf_flush s oc) = g_total_lines s"
  "clamp_height (dbuf_flush s oc) = clamp_height s"
  "frame (dbuf_flush s oc) = frame s"
  by (simp_all add: dbuf_flush_def tty_write_def)

lemma tty_dbuf_flush:
  "tty (dbuf_flush s oc) =
     (if g_tty_fd s \<ge> 0 \<and> g_draw_buf s \<noteq> []
      then tty s @ [device_write oc (g_draw_buf s) (length (g_draw_buf s))]
      else tty s)"
  by (simp add: dbuf_flush_def tty_write_def)

lemma get_terminal_size_fields [simp]:
  "g_ring (get_terminal_size s ws) = g_ring s"
  "g_win_height (get_terminal_size s ws) = g_win_height s"
  "g_started (get_terminal_size s ws) = g_started s"
  "g_tty_fd (get_terminal_size s ws) = g_tty_fd s"
  "g_is_tty (get_terminal_size s ws) = g_is_tty s"
  "g_draw_buf (get_terminal_size s ws) = g_draw_buf s"
  "tty (get_terminal_size s ws) = tty s"
  "g_resize (get_terminal_size s ws) = g_resize s"
  "g_files (get_terminal_size s ws) = g_files s"
  "stderr (get_terminal_size s ws) = stderr s"
  "stdout (get_terminal_size s ws) = stdout s"
  "g_total_lines (get_terminal_size s ws) = g_total_lines s"
  by (auto simp: get_terminal_size_def Let_def split: option.splits)

lemma printed_nonempty: "txt \<noteq> [] \<Longrightarrow> printed txt \<noteq> []"
  by (auto simp: printed_def)

lemma frame_nonempty: "frame s \<noteq> []"
  by (simp add: frame_def cursor_to_def printed_nonempty)

text \<open>
  C6, as amended. On every resize the effective height is the requested height
  clamped to \<open>rows - 1\<close> with minimum 1, the window is anchored at the bottom
  (\<open>window top = rows - height + 1\<close>, \<open>scroll bottom = window top - 1\<close>) and the
  resize flag is cleared. Once the window has been set up (\<^verbatim>\<open>g_started\<close>), the draw
  buffer holds the set-scroll-region sequence when \<open>scroll bottom \<ge> 2\<close> and the
  reset to full screen otherwise, followed by the frame, and is written with one
  write. Before the window has been set up nothing is composed or written.
\<close>

theorem resize_layout:
  "(g_started s \<longrightarrow> ring_readable (g_ring s)) \<longrightarrow>
   (\<exists>s'. handle_resize s ws outcome = Inr s'
     \<and> g_term_rows s' = g_term_rows (get_terminal_size s ws)
     \<and> g_win_height s' = g_win_height s
     \<and> clamp_height s' = max 1 (min (g_win_height s) (g_term_rows s' - 1))
     \<and> g_win_top s' = g_term_rows s' - clamp_height s' + 1
     \<and> g_scroll_bottom s' = g_win_top s' - 1
     \<and> \<not> g_resize s'
     \<and> (g_started s \<longrightarrow>
           g_draw_buf s' = (if g_scroll_bottom s' \<ge> 2
                            then printed (set_scroll_region (g_scroll_bottom s'))
                            else ESC # ''[r'')
                           @ frame s'
           \<and> tty s' = (if g_tty_fd s \<ge> 0
                        then tty s @ [device_write outcome (g_draw_buf s') (length (g_draw_buf s'))]
                        else tty s))
     \<and> (\<not> g_started s \<longrightarrow> g_draw_buf s' = g_draw_buf s \<and> tty s' = tty s))"
proof
  assume rd: "g_started s \<longrightarrow> ring_readable (g_ring s)"
  define s1 where "s1 = get_terminal_size (s\<lparr>g_resize := False\<rparr>) ws"
  define s3 where "s3 = s1\<lparr>g_win_top := g_term_rows s1 - clamp_height s1 + 1,
                           g_scroll_bottom := g_term_rows s1 - clamp_height s1\<rparr>"
  have rows: "g_term_rows s1 = g_term_rows (get_terminal_size s ws)"
    by (auto simp: s1_def get_terminal_size_def Let_def split: option.splits)
  have s3f: "g_started s3 = g_started s" "g_ring s3 = g_ring s" "g_tty_fd s3 = g_tty_fd s"
    "g_draw_buf s3 = g_draw_buf s" "tty s3 = tty s" "g_win_height s3 = g_win_height s"
    "g_term_rows s3 = g_term_rows s1" "\<not> g_resize s3"
    "g_win_top s3 = g_term_rows s1 - clamp_height s1 + 1"
    "g_scroll_bottom s3 = g_win_top s3 - 1"
    "clamp_height s3 = clamp_height s1"
    by (simp_all add: s3_def s1_def clamp_height_eq)
  have hr: "handle_resize s ws outcome =
     (if g_started s3
      then (case build_redraw
                   ((dbuf_reset s3)\<lparr>g_draw_buf :=
                      (if g_scroll_bottom s3 \<ge> 2 then printed (set_scroll_region (g_scroll_bottom s3))
                       else ESC # ''[r'')\<rparr>) of
              Inl e \<Rightarrow> Inl e
            | Inr s6 \<Rightarrow> Inr (dbuf_flush s6 outcome))
      else Inr s3)"
    by (simp add: handle_resize_def Let_def s3_def s1_def dbuf_printf_eq dbuf_append_def dbuf_reset_def)
  show "\<exists>s'. handle_resize s ws outcome = Inr s'
     \<and> g_term_rows s' = g_term_rows (get_terminal_size s ws)
     \<and> g_win_height s' = g_win_height s
     \<and> clamp_height s' = max 1 (min (g_win_height s) (g_term_rows s' - 1))
     \<and> g_win_top s' = g_term_rows s' - clamp_height s' + 1
     \<and> g_scroll_bottom s' = g_win_top s' - 1
     \<and> \<not> g_resize s'
     \<and> (g_started s \<longrightarrow>
           g_draw_buf s' = (if g_scroll_bottom s' \<ge> 2
                            then printed (set_scroll_region (g_scroll_bottom s'))
                            else ESC # ''[r'')
                           @ frame s'
           \<and> tty s' = (if g_tty_fd s \<ge> 0
                        then tty s @ [device_write outcome (g_draw_buf s') (length (g_draw_buf s'))]
                        else tty s))
     \<and> (\<not> g_started s \<longrightarrow> g_draw_buf s' = g_draw_buf s \<and> tty s' = tty s)"
  proof (cases "g_started s")
    case False
    then have "handle_resize s ws outcome = Inr s3" using hr s3f(1) by simp
    then show ?thesis using False s3f rows by (simp add: clamp_height_eq)
  next
    case True
    let ?pre = "if g_scroll_bottom s3 \<ge> 2 then printed (set_scroll_region (g_scroll_bottom s3))
                else ESC # ''[r''"
    let ?s5 = "(dbuf_reset s3)\<lparr>g_draw_buf := ?pre\<rparr>"
    have "ring_readable (g_ring ?s5)" using rd True s3f(2) by (simp add: dbuf_reset_def)
    then have b: "build_redraw ?s5 = Inr (?s5\<lparr>g_draw_buf := g_draw_buf ?s5 @ frame ?s5\<rparr>)"
      by (rule build_redraw_eq)
    define s6 where "s6 = ?s5\<lparr>g_draw_buf := g_draw_buf ?s5 @ frame ?s5\<rparr>"
    have s6f: "g_draw_buf s6 = ?pre @ frame s3" "g_draw_buf s6 \<noteq> []"
      by (simp_all add: s6_def dbuf_reset_def frame_nonempty)
    have h: "handle_resize s ws outcome = Inr (dbuf_flush s6 outcome)"
      using hr True s3f(1) b by (simp add: s6_def)
    define s' where "s' = dbuf_flush s6 outcome"
    have s6g: "g_term_rows s6 = g_term_rows s1" "g_win_height s6 = g_win_height s"
      "g_win_top s6 = g_term_rows s1 - clamp_height s1 + 1"
      "g_scroll_bottom s6 = g_term_rows s1 - clamp_height s1"
      "\<not> g_resize s6" "clamp_height s6 = clamp_height s1"
      "g_tty_fd s6 = g_tty_fd s" "tty s6 = tty s" "frame s6 = frame s3"
      using s3f by (simp_all add: s6_def dbuf_reset_def clamp_height_eq)
    have g: "g_term_rows s' = g_term_rows s1" "g_win_height s' = g_win_height s"
      "g_win_top s' = g_term_rows s1 - clamp_height s1 + 1"
      "g_scroll_bottom s' = g_term_rows s1 - clamp_height s1"
      "\<not> g_resize s'" "clamp_height s' = clamp_height s1"
      using s6g by (simp_all add: s'_def)
    have fr: "frame s' = frame s3"
      using s6g(9) by (simp add: s'_def)
    have sb: "g_scroll_bottom s3 = g_scroll_bottom s'"
      using g(4) s3f(9,10) by simp
    have db: "g_draw_buf s' = ?pre @ frame s3"
      using s6f(1) by (simp add: s'_def)
    have tt: "tty s' = (if g_tty_fd s \<ge> 0
                        then tty s @ [device_write outcome (g_draw_buf s') (length (g_draw_buf s'))]
                        else tty s)"
      using s6f(2) s6g(7,8) by (simp add: s'_def tty_dbuf_flush)
    have ch: "clamp_height s' = max 1 (min (g_win_height s) (g_term_rows s' - 1))"
      using g(1,2) by (simp add: clamp_height_eq)
    have 1: "handle_resize s ws outcome = Inr s'" using h by (simp add: s'_def)
    have 2: "g_term_rows s' = g_term_rows (get_terminal_size s ws)" using g(1) rows by simp
    have 3: "g_win_top s' = g_term_rows s' - clamp_height s' + 1" using g by simp
    have 4: "g_scroll_bottom s' = g_win_top s' - 1" using g by simp
    have 5: "g_draw_buf s' = (if g_scroll_bottom s' \<ge> 2
                            then printed (set_scroll_region (g_scroll_bottom s'))
                            else ESC # ''[r'') @ frame s'"
      using db by (simp only: fr sb)
    show ?thesis using True 1 2 3 4 5 g(2,5) ch tt by blast
  qed
qed

text \<open>A resize from 80 x 24 to 80 x 10 with requested height 10.\<close>

theorem resize_layout_witness:
  "ring_readable (g_ring (initial_state\<lparr>g_is_tty := True, g_tty_fd := 3, g_started := True\<rparr>))
   \<and> (\<exists>s'. handle_resize (initial_state\<lparr>g_is_tty := True, g_tty_fd := 3, g_started := True\<rparr>)
              (Some (80, 10)) (Some 4096) = Inr s'
          \<and> g_term_rows s' = 10 \<and> clamp_height s' = 9 \<and> g_win_top s' = 2
          \<and> g_scroll_bottom s' = 1 \<and> take 3 (g_draw_buf s') = ESC # ''[r'')"
proof -
  let ?s = "initial_state\<lparr>g_is_tty := True, g_tty_fd := 3, g_started := True\<rparr>"
  have r: "ring_readable (g_ring ?s)" by code_simp
  have rows: "g_term_rows (get_terminal_size ?s (Some (80, 10))) = 10" by code_simp
  have hgt: "g_win_height ?s = 10" by code_simp
  have st: "g_started ?s" by code_simp
  obtain s' where s': "handle_resize ?s (Some (80, 10)) (Some 4096) = Inr s'"
    "g_term_rows s' = g_term_rows (get_terminal_size ?s (Some (80, 10)))"
    "g_win_height s' = g_win_height ?s"
    "clamp_height s' = max 1 (min (g_win_height ?s) (g_term_rows s' - 1))"
    "g_win_top s' = g_term_rows s' - clamp_height s' + 1"
    "g_scroll_bottom s' = g_win_top s' - 1"
    "g_draw_buf s' = (if g_scroll_bottom s' \<ge> 2
                            then printed (set_scroll_region (g_scroll_bottom s'))
                            else ESC # ''[r'') @ frame s'"
    using resize_layout [of ?s "Some (80, 10)" "Some 4096"] r st by blast
  have a: "g_term_rows s' = 10" using s'(2) rows by simp
  have b: "clamp_height s' = 9" using s'(4) a hgt by simp
  have c: "g_win_top s' = 2" using s'(5) a b by simp
  have d: "g_scroll_bottom s' = 1" using s'(6) c by simp
  have e: "take 3 (g_draw_buf s') = ESC # ''[r''" using s'(7) d by simp
  show ?thesis using r s'(1) a b c d e by blast
qed

text \<open>
  Without a terminal the window is never set up. A resize signal then recomputes
  the geometry (here \<open>scroll bottom = 1\<close>) and emits no reset.
\<close>

theorem resize_layout_counterexample:
  "handle_resize (initial_state\<lparr>g_win_height := 30, g_ring := ringbuf_init 30, g_resize := True\<rparr>)
      None None
     = Inr (initial_state\<lparr>g_win_height := 30, g_ring := ringbuf_init 30,
                           g_win_top := 2, g_scroll_bottom := 1\<rparr>)
   \<and> g_draw_buf (initial_state\<lparr>g_win_height := 30, g_ring := ringbuf_init 30,
                           g_win_top := 2, g_scroll_bottom := 1\<rparr>) = []
   \<and> tty (initial_state\<lparr>g_win_height := 30, g_ring := ringbuf_init 30,
                           g_win_top := 2, g_scroll_bottom := 1\<rparr>) = []"
  by code_simp



lemma read_reply_Nil [simp]: "read_reply n [] = []"
  by (cases n) simp_all




section \<open>Properties of the tee path\<close>







text \<open>
  Where no recorded length reaches beyond its copy, the display functions read the
  ring buffer itself.
\<close>

lemma ring_in_memory_same:
  assumes "\<forall>k < length (lines rb). readable (lines rb ! k, lengths rb ! k)"
  shows "ring_in_memory follows rb = rb"
proof -
  have "memory_at (follows k) (lines rb ! k) (lengths rb ! k) = lines rb ! k"
    if "k < length (lines rb)" for k
    using assms that by (cases "lines rb ! k") (auto simp: memory_at_def readable_def)
  then have "map (\<lambda>k. memory_at (follows k) (lines rb ! k) (lengths rb ! k)) [0..<length (lines rb)]
               = map (\<lambda>k. lines rb ! k) [0..<length (lines rb)]"
    by simp
  then show ?thesis by (simp add: ring_in_memory_def map_nth)
qed

















section \<open>Properties of the decorative mode\<close>

lemma csi_len_le: "csi_len fin cs \<le> length cs"
  by (induction cs) auto

lemma escape_len_le: "escape_len fin cs \<le> length cs"
  using csi_len_le[of fin] by (auto simp: escape_len_def split: list.splits)

text \<open>In plain mode the model is the sanitizer of the sources.\<close>

lemma plain_mode_is_source:
  "fst (sanitize_mode fin False budget col cs) = sanitized budget col cs"
  by (induction fin False budget col cs rule: sanitize_mode.induct)
     (auto simp: Let_def split: prod.splits)

lemma strip_escapes_plain:
  "ESC \<notin> set xs \<Longrightarrow> strip_escapes fin (xs @ ys) = xs @ strip_escapes fin ys"
  by (induction xs) auto

lemma csi_len_terminated:
  "fin t \<Longrightarrow> \<forall>p \<in> set ps. \<not> fin p \<Longrightarrow> csi_len fin (ps @ t # rest) = length ps + 1"
  by (induction ps) auto

lemma csi_len_self:
  "drop (csi_len fin cs) cs = [] \<or> (\<forall>ys. csi_len fin (take (csi_len fin cs) cs @ ys) = csi_len fin cs)"
  by (induction cs) auto

lemma csi_len_all: "drop (csi_len fin cs) cs = [] \<Longrightarrow> csi_len fin (take (csi_len fin cs) cs) = csi_len fin cs"
  using csi_len_le[of fin cs] by simp

lemma escape_len_self:
  assumes "ys = [] \<or> drop (escape_len fin cs) cs \<noteq> []"
  shows "escape_len fin (take (escape_len fin cs) cs @ ys) = escape_len fin cs"
proof (cases cs)
  case Nil
  then show ?thesis using assms by (auto simp: escape_len_def)
next
  case (Cons c cs')
  show ?thesis
  proof (cases "c = CHR ''[''")
    case False
    then show ?thesis using Cons by (simp add: escape_len_def)
  next
    case True
    have k: "escape_len fin cs = 1 + csi_len fin cs'" using Cons True by (simp add: escape_len_def)
    have "csi_len fin (take (csi_len fin cs') cs' @ ys) = csi_len fin cs'"
    proof (cases "ys = []")
      case True
      have "take (csi_len fin cs') cs' = cs' \<or> (\<forall>zs. csi_len fin (take (csi_len fin cs') cs' @ zs) = csi_len fin cs')"
        using csi_len_self[of fin cs'] csi_len_le[of fin cs'] by auto
      then show ?thesis using True by (metis append_Nil2 csi_len_le le_antisym length_take min.absorb2 take_all_iff)
    next
      case False
      then have "drop (csi_len fin cs') cs' \<noteq> []" using assms k Cons by simp
      then show ?thesis using csi_len_self[of fin cs'] by blast
    qed
    then show ?thesis using Cons True k by (simp add: escape_len_def)
  qed
qed

lemma sanitize_mode_Nil_out:
  "fst (sanitize_mode fin d budget col []) = []"
  by simp

lemma visible_columns:
  "snd (sanitize_mode fin True budget col xs)
     = col + length (strip_escapes fin (fst (sanitize_mode fin True budget col xs)))"
proof (induction fin True budget col xs rule: sanitize_mode.induct)
  case (1 fin budget col)
  then show ?case by simp
next
  case (2 fin budget col ch cs)
  show ?case
  proof (cases "col < budget")
    case False
    then show ?thesis by simp
  next
    case lt: True
    consider (nl) "ch = LF \<or> ch = CR"
      | (tab) "\<not> (ch = LF \<or> ch = CR)" "ch = TAB"
      | (esc) "\<not> (ch = LF \<or> ch = CR)" "ch \<noteq> TAB" "ch = ESC"
      | (ctl) "\<not> (ch = LF \<or> ch = CR)" "ch \<noteq> TAB" "ch \<noteq> ESC" "(of_char ch :: nat) < 0x20 \<or> ch = DEL"
      | (vis) "\<not> (ch = LF \<or> ch = CR)" "ch \<noteq> TAB" "ch \<noteq> ESC" "\<not> ((of_char ch :: nat) < 0x20 \<or> ch = DEL)"
      by blast
    then show ?thesis
    proof cases
      case nl
      then show ?thesis using lt 2(1) by simp
    next
      case tab
      let ?stop = "min ((col div 8 + 1) * 8) budget"
      have c: "col \<le> ?stop" using lt by (simp add: dividend_less_times_div less_imp_le)
      have "ESC \<notin> set (replicate (?stop - col) (CHR '' ''))" by auto
      then show ?thesis
        using lt tab c 2(2)[OF lt tab(1) tab(2) refl]
        by (auto simp: Let_def strip_escapes_plain split: prod.splits)
    next
      case esc
      let ?k = "escape_len fin cs"
      obtain out n where r: "sanitize_mode fin True budget col (drop ?k cs) = (out, n)"
        by (cases "sanitize_mode fin True budget col (drop ?k cs)")
      have ih: "n = col + length (strip_escapes fin out)"
        using 2(3)[OF lt esc(1) esc(2) _ refl] esc(3) r by simp
      have e: "sanitize_mode fin True budget col (ch # cs) = (ESC # take ?k cs @ out, n)"
        using lt esc r by (simp add: Let_def)
      have "out = [] \<or> drop ?k cs \<noteq> []" using r by (cases "drop ?k cs") auto
      then have "escape_len fin (take ?k cs @ out) = ?k" by (rule escape_len_self)
      moreover have "length (take ?k cs) = ?k" using escape_len_le[of fin cs] by simp
      ultimately have "strip_escapes fin (ESC # take ?k cs @ out) = strip_escapes fin out"
        by simp
      then show ?thesis using e ih by simp
    next
      case ctl
      then show ?thesis
        using lt 2(4)[OF lt ctl(1) ctl(2) _ ctl(4)] by (auto simp: Let_def split: prod.splits)
    next
      case vis
      then show ?thesis
        using lt 2(5)[OF lt vis(1) vis(2) _ vis(4)] by (auto simp: Let_def split: prod.splits)
    qed
  qed
qed


text \<open>
  C4, as amended. In decorative mode an escape sequence that is reached while
  column budget is left (ESC and the bytes \<open>seq\<close> that belong to it) is copied to the
  output as it is and the rest of the line continues in the same column; ESC,
  \<^verbatim>\<open>[\<close>, parameter bytes and a terminator form such a sequence, and so do ESC and
  one byte other than \<^verbatim>\<open>[\<close>. A printable byte outside a sequence that is reached
  while budget is left is copied and takes one column. Once the budget is
  exhausted nothing more of the line is copied, escape sequences included. For
  every line the final column count is the starting column plus the number of
  output bytes outside escape sequences.
\<close>

theorem decorative_escape_sequences:
  "(col < budget \<and> escape_len fin (seq @ rest) = length seq \<longrightarrow>
      sanitize_mode fin True budget col (ESC # seq @ rest)
        = (ESC # seq @ fst (sanitize_mode fin True budget col rest),
           snd (sanitize_mode fin True budget col rest)))
   \<and> (fin t \<and> (\<forall>p \<in> set ps. \<not> fin p) \<longrightarrow>
        escape_len fin (CHR ''['' # ps @ t # rest) = length (CHR ''['' # ps @ [t]))
   \<and> (c \<noteq> CHR ''['' \<longrightarrow> escape_len fin (c # rest) = 1)
   \<and> (col < budget \<and> 0x20 \<le> (of_char ch :: nat) \<and> ch \<noteq> DEL \<longrightarrow>
        sanitize_mode fin True budget col (ch # rest)
          = (ch # fst (sanitize_mode fin True budget (col + 1) rest),
             snd (sanitize_mode fin True budget (col + 1) rest)))
   \<and> (budget \<le> col \<longrightarrow> sanitize_mode fin True budget col xs = ([], col))
   \<and> snd (sanitize_mode fin True budget col xs)
        = col + length (strip_escapes fin (fst (sanitize_mode fin True budget col xs)))"
proof (intro conjI impI)
  assume a: "col < budget \<and> escape_len fin (seq @ rest) = length seq"
  then show "sanitize_mode fin True budget col (ESC # seq @ rest)
        = (ESC # seq @ fst (sanitize_mode fin True budget col rest),
           snd (sanitize_mode fin True budget col rest))"
    by (simp add: Let_def split: prod.splits)
next
  assume "fin t \<and> (\<forall>p \<in> set ps. \<not> fin p)"
  then show "escape_len fin (CHR ''['' # ps @ t # rest) = length (CHR ''['' # ps @ [t])"
    by (simp add: escape_len_def csi_len_terminated)
next
  assume "c \<noteq> CHR ''[''"
  then show "escape_len fin (c # rest) = 1" by (simp add: escape_len_def)
next
  assume a: "col < budget \<and> 0x20 \<le> (of_char ch :: nat) \<and> ch \<noteq> DEL"
  then have "ch \<noteq> LF" "ch \<noteq> CR" "ch \<noteq> TAB" "ch \<noteq> ESC" by auto
  then show "sanitize_mode fin True budget col (ch # rest)
          = (ch # fst (sanitize_mode fin True budget (col + 1) rest),
             snd (sanitize_mode fin True budget (col + 1) rest))"
    using a by (simp add: Let_def split: prod.splits)
next
  assume "budget \<le> col"
  then show "sanitize_mode fin True budget col xs = ([], col)" by (cases xs) simp_all
next
  show "snd (sanitize_mode fin True budget col xs)
        = col + length (strip_escapes fin (fst (sanitize_mode fin True budget col xs)))"
    by (rule visible_columns)
qed

text \<open>
  The examples of the unit test: red text with budget 3, where the output is the
  opening sequence, the three letters and the reset, twelve bytes; and a two-byte
  escape.
\<close>

theorem decorative_escape_sequences_witness:
  "sanitize_mode ecma48_final True 3 0 (ESC # ''[31m'' @ ''red'' @ ESC # ''[0m'')
     = (ESC # ''[31m'' @ ''red'', 3)
   \<and> escape_len ecma48_final (''[31m'' @ ''red'' @ ESC # ''[0m'') = length ''[31m''
   \<and> sanitize_mode ecma48_final True 3 3 (ESC # ''[0m'') = ([], 3)
   \<and> sanitize_line_ansi ecma48_final True (ESC # ''[31m'' @ ''red'' @ ESC # ''[0m'') 3
     = ESC # ''[31m'' @ ''red'' @ ESC # ''[0m''
   \<and> sanitize_line_ansi ecma48_final True (ESC # ''Mtext'') 80 = ESC # ''Mtext'' @ ESC # ''[0m''"
proof -
  note t = decorative_escape_sequences
    [of 0 3 ecma48_final "''[31m''" "''red'' @ ESC # ''[0m''" "CHR ''m''" "''31''" "CHR ''M''" "CHR ''r''" "[]"]
  note u = decorative_escape_sequences
    [of 3 3 ecma48_final "''[0m''" "[]" "CHR ''m''" "''0''" "CHR ''M''" "CHR ''r''" "ESC # ''[0m''"]
  have z: "(0::nat) < 3" by simp
  have l: "escape_len ecma48_final (''[31m'' @ ''red'' @ ESC # ''[0m'') = length ''[31m''"
    by code_simp
  have "sanitize_mode ecma48_final True 3 0 (ESC # ''[31m'' @ ''red'' @ ESC # ''[0m'')
         = (ESC # ''[31m'' @ fst (sanitize_mode ecma48_final True 3 0 (''red'' @ ESC # ''[0m'')),
            snd (sanitize_mode ecma48_final True 3 0 (''red'' @ ESC # ''[0m'')))"
    using t l z by blast
  moreover have "sanitize_mode ecma48_final True 3 0 (''red'' @ ESC # ''[0m'') = (''red'', 3)"
    by code_simp
  ultimately have a: "sanitize_mode ecma48_final True 3 0 (ESC # ''[31m'' @ ''red'' @ ESC # ''[0m'')
     = (ESC # ''[31m'' @ ''red'', 3)"
    by simp
  have b: "sanitize_mode ecma48_final True 3 3 (ESC # ''[0m'') = ([], 3)"
    using u by blast
  have c: "sanitize_line_ansi ecma48_final True (ESC # ''[31m'' @ ''red'' @ ESC # ''[0m'') 3
     = ESC # ''[31m'' @ ''red'' @ ESC # ''[0m''"
    using a by (simp add: sanitize_line_ansi_def)
  have d: "sanitize_line_ansi ecma48_final True (ESC # ''Mtext'') 80 = ESC # ''Mtext'' @ ESC # ''[0m''"
    by code_simp
  show ?thesis by (intro conjI) (rule a l b c d)+
qed

text \<open>
  The claim as stated fails where the budget is exhausted: behind three letters
  with budget 3 the sequence \<^verbatim>\<open>ESC [1m\<close>, which is recognized, is not copied, and
  the output is the three letters and the reset.
\<close>

theorem decorative_escape_sequences_counterexample:
  "escape_len ecma48_final (''[1m'' @ ''x'') = length ''[1m''
   \<and> sanitize_mode ecma48_final True 3 0 (''red'' @ ESC # ''[1m'' @ ''x'') = (''red'', 3)
   \<and> sanitize_line_ansi ecma48_final True (''red'' @ ESC # ''[1m'' @ ''x'') 3
     = ''red'' @ ESC # ''[0m''"
proof -
  have a: "escape_len ecma48_final (''[1m'' @ ''x'') = length ''[1m''" by code_simp
  have b: "sanitize_mode ecma48_final True 3 0 (''red'' @ ESC # ''[1m'' @ ''x'') = (''red'', 3)"
    by code_simp
  have c: "sanitize_line_ansi ecma48_final True (''red'' @ ESC # ''[1m'' @ ''x'') 3
     = ''red'' @ ESC # ''[0m''"
    by code_simp
  show ?thesis by (intro conjI) (rule a b c)+
qed

end
